theory Spec2Isabelle
  imports Complex_Main "HOL-Library.AList"
begin

section \<open>Data model of the miner (msr.py)\<close>

text \<open>
  The miner works on dictionaries decoded from JSON. A field that holds a timestamp or a
  url is either JSON null or a string; \<open>dict.get\<close> reads an absent key as \<open>None\<close>, so an
  absent key and a null value are the same value \<open>None\<close> here. Python tests such values
  with \<open>if v:\<close>, which is false for \<open>None\<close> and for the empty string.
\<close>

definition truthy :: "string option \<Rightarrow> bool" where
  "truthy v = (case v of None \<Rightarrow> False | Some s \<Rightarrow> s \<noteq> [])"

text \<open>
  The \<open>pull_request\<close> entry of a search result: the key may be absent (the default \<open>{}\<close>
  is used), it may hold something that is not an object (the call of \<open>.get\<close> on it raises
  \<open>AttributeError\<close>), or it holds an object, of which only \<open>merged_at\<close> is read.
\<close>

datatype pull_request_field = Absent | NotAnObject | Object "string option"

record raw_match =
  raw_id :: "int option"
  raw_html_url :: "string option"
  raw_created_at :: "string option"
  raw_closed_at :: "string option"
  raw_pull_request :: pull_request_field

record metadata =
  html_url :: "string option"
  created_at :: "string option"
  merged_at :: "string option"
  closed_at :: "string option"

datatype error = AttributeError | NoTokenError | UploadError

section \<open>extract_pr_metadata\<close>

definition extract_pr_metadata :: "raw_match \<Rightarrow> error + metadata" where
  "extract_pr_metadata pr =
     (case raw_pull_request pr of
        NotAnObject \<Rightarrow> Inl AttributeError
      | Absent \<Rightarrow>
          Inr \<lparr>html_url = raw_html_url pr, created_at = raw_created_at pr,
               merged_at = None, closed_at = raw_closed_at pr\<rparr>
      | Object m \<Rightarrow>
          Inr \<lparr>html_url = raw_html_url pr, created_at = raw_created_at pr,
               merged_at = m,
               closed_at = (if truthy m then None else raw_closed_at pr)\<rparr>)"

section \<open>calculate_pr_stats_from_metadata\<close>

text \<open>
  The acceptance rate is a Python float, an IEEE 754 binary64 number. A finite float is
  modelled by the rational number it denotes, and an operation on floats by its exact
  result rounded to the nearest float, ties to the even significand: this is what
  \<open>int / int\<close>, \<open>float * float\<close> and the conversion of a decimal numeral do. The
  significand has 53 bits, so that the floats around a number with binary exponent \<open>e\<close>
  are the multiples of 2 to the \<open>e - 52\<close>. The exponent range is not modelled: a list has
  fewer than 2 to the 63 elements, so that a value that occurs here is 0 or lies between
  2 to the -63 and 101, where no float is subnormal or infinite.
\<close>

definition round_half_even :: "rat \<Rightarrow> int" where
  "round_half_even q =
     (let f = \<lfloor>q\<rfloor>; r = q - of_int f
      in if r < 1 / 2 then f else if 1 / 2 < r then f + 1
         else if even f then f else f + 1)"

definition round2 :: "rat \<Rightarrow> rat" where
  "round2 q = of_int (round_half_even (q * 100)) / 100"

text \<open>\<open>int.bit_length\<close>, used for the binary exponent of a positive rational.\<close>

function bit_length :: "int \<Rightarrow> nat" where
  "bit_length n = (if n \<le> 0 then 0 else Suc (bit_length (n div 2)))"
  by pat_completeness auto
termination
  by (relation "measure nat") auto

declare bit_length.simps [simp del]

definition floor_log2 :: "rat \<Rightarrow> int" where
  "floor_log2 x =
     (let e = int (bit_length (fst (quotient_of x))) - int (bit_length (snd (quotient_of x)))
      in if power_int 2 e \<le> x then e else e - 1)"

text \<open>The float nearest to \<open>x\<close>.\<close>

definition float_round :: "rat \<Rightarrow> rat" where
  "float_round x =
     (if x = 0 then 0
      else (let ulp = power_int 2 (floor_log2 \<bar>x\<bar> - 52)
            in of_int (round_half_even (x / ulp)) * ulp))"

text \<open>
  \<open>round(x, 2)\<close> on a float: the exact value of \<open>x\<close> is rounded to the nearest hundredth,
  ties to even, and the float nearest to that decimal is returned.
\<close>

definition py_round2 :: "rat \<Rightarrow> rat" where
  "py_round2 x = float_round (round2 x)"

record stats =
  total_prs :: nat
  merged :: nat
  acceptance_rate :: rat

text \<open>
  Lines 528 to 538. \<open>merged / total_decisions\<close> is a division of two integers and
  \<open>* 100\<close> a multiplication of floats; without a decision the rate is the integer 0.
\<close>

definition calculate_pr_stats_from_metadata :: "metadata list \<Rightarrow> stats" where
  "calculate_pr_stats_from_metadata metadata_list =
     (let total = length metadata_list;
          mrg = length (filter (\<lambda>pr_meta. truthy (merged_at pr_meta)) metadata_list);
          closed_not_merged =
            length (filter (\<lambda>pr_meta. truthy (closed_at pr_meta) \<and> \<not> truthy (merged_at pr_meta))
                      metadata_list);
          total_decisions = mrg + closed_not_merged;
          rate = (if 0 < total_decisions
                  then float_round (float_round (of_nat mrg / of_nat total_decisions) * 100)
                  else 0)
      in \<lparr>total_prs = total, merged = mrg, acceptance_rate = py_round2 rate\<rparr>)"

section \<open>The fetch window\<close>

text \<open>
  A point in time is the number of microseconds since the epoch, the resolution of
  Python's \<open>datetime\<close> and \<open>timedelta\<close>. All times are timezone-aware instants, as the
  timestamps of the provider (which end in \<open>Z\<close>) and \<open>datetime.now(timezone.utc)\<close> are.
\<close>

type_synonym datetime = int

definition seconds :: "int \<Rightarrow> int" where
  "seconds n = n * 1000000"

definition days :: "int \<Rightarrow> int" where
  "days n = n * 86400000000"



section \<open>Parsing of persisted timestamps\<close>

text \<open>
  \<open>datetime.fromisoformat\<close> belongs to the Python library and is a parameter of the
  model: it returns \<open>None\<close> where the library raises \<open>ValueError\<close>. Of the parsed value
  the miner reads the calendar fields and compares instants.
\<close>

record parsed_datetime =
  year :: nat
  month :: nat
  day :: nat
  instant :: datetime

type_synonym parser = "string \<Rightarrow> parsed_datetime option"

text \<open>\<open>created_at.replace('Z', '+00:00')\<close>\<close>

definition replace_Z :: "string \<Rightarrow> string" where
  "replace_Z s = concat (map (\<lambda>c. if c = CHR ''Z'' then ''+00:00'' else [c]) s)"

text \<open>
  The value of \<open>created_at\<close> as both readers see it: nothing for a falsy field and for a
  string the library rejects.
\<close>

definition parse_created_at :: "parser \<Rightarrow> metadata \<Rightarrow> parsed_datetime option" where
  "parse_created_at fromisoformat pr_meta =
     (case created_at pr_meta of
        None \<Rightarrow> None
      | Some s \<Rightarrow> if s = [] then None else fromisoformat (replace_Z s))"

section \<open>group_metadata_by_date\<close>

text \<open>
  A Python dictionary keeps its keys in insertion order; it is an association list whose
  entries are set with \<open>AList.update\<close>, which overwrites in place and appends a new key.
\<close>

type_synonym ymd = "nat \<times> nat \<times> nat"

definition group_step ::
  "parser \<Rightarrow> (ymd \<times> metadata list) list \<Rightarrow> metadata \<Rightarrow> (ymd \<times> metadata list) list" where
  "group_step fromisoformat grouped pr_meta =
     (case parse_created_at fromisoformat pr_meta of
        None \<Rightarrow> grouped
      | Some dt \<Rightarrow>
          (let key = (year dt, month dt, day dt);
               old = (case map_of grouped key of None \<Rightarrow> [] | Some l \<Rightarrow> l)
           in AList.update key (old @ [pr_meta]) grouped))"

definition group_metadata_by_date ::
  "parser \<Rightarrow> metadata list \<Rightarrow> (ymd \<times> metadata list) list" where
  "group_metadata_by_date fromisoformat metadata_list =
     foldl (group_step fromisoformat) [] metadata_list"

section \<open>The url-keyed merge of save_pr_metadata_to_hf\<close>

text \<open>\<open>{meta['html_url']: meta for meta in metadata if meta.get('html_url')}\<close>\<close>

definition by_url :: "metadata list \<Rightarrow> (string \<times> metadata) list" where
  "by_url ms =
     foldl (\<lambda>d meta. case html_url meta of
                        None \<Rightarrow> d
                      | Some u \<Rightarrow> if u = [] then d else AList.update u meta d) [] ms"

text \<open>\<open>d.update(other)\<close>\<close>

definition dict_update :: "('k \<times> 'v) list \<Rightarrow> ('k \<times> 'v) list \<Rightarrow> ('k \<times> 'v) list" where
  "dict_update d other = foldl (\<lambda>acc kv. AList.update (fst kv) (snd kv) acc) d other"

text \<open>
  Lines 359 to 362 (and 330 to 333 for the cache of the debug mode): the merged shard.
\<close>

definition merge_shard :: "metadata list \<Rightarrow> metadata list \<Rightarrow> metadata list" where
  "merge_shard existing_metadata day_metadata =
     map snd (dict_update (by_url existing_metadata) (by_url day_metadata))"

text \<open>
  Two notions in which the properties of the merge are stated. \<open>lookup_url ms u\<close> is the
  record that a url-keyed reading of \<open>ms\<close> holds for \<open>u\<close>: the last one with that url.
  \<open>shard_ok ms\<close> is the invariant of a shard in the data model: urls are truthy and no
  two records share one.
\<close>

definition lookup_url :: "metadata list \<Rightarrow> string \<Rightarrow> metadata option" where
  "lookup_url ms u = find (\<lambda>m. html_url m = Some u) (rev ms)"

definition shard_ok :: "metadata list \<Rightarrow> bool" where
  "shard_ok ms = (distinct (map html_url ms) \<and> list_all (\<lambda>m. truthy (html_url m)) ms)"

section \<open>The metadata dataset\<close>

text \<open>
  The dataset is the list of its files, each a path with the records of its lines. The
  calls that reach it may fail; which of them fail is part of the environment.
\<close>

type_synonym repo = "(string \<times> metadata list) list"

record env =
  DEBUG_MODE :: bool
  hf_token :: "string option"
  fromisoformat :: parser
  list_fails :: bool
  download_fails :: "string \<Rightarrow> bool"
  upload_fails :: "string \<Rightarrow> bool"

function string_of_nat :: "nat \<Rightarrow> string" where
  "string_of_nat n =
     (if n < 10 then [''0123456789'' ! n]
      else string_of_nat (n div 10) @ [''0123456789'' ! (n mod 10)])"
  by pat_completeness auto
termination
  by (relation "measure id") auto

text \<open>The format \<open>{n:02d}\<close>.\<close>

definition pad2 :: "nat \<Rightarrow> string" where
  "pad2 n = (if n < 10 then ''0'' @ string_of_nat n else string_of_nat n)"

text \<open>\<open>f"{agent_identifier}/{pr_year}.{month:02d}.{day:02d}.jsonl"\<close>\<close>

definition shard_path :: "string \<Rightarrow> ymd \<Rightarrow> string" where
  "shard_path agent_identifier key =
     (case key of (pr_year, m, d) \<Rightarrow>
        agent_identifier @ ''/'' @ string_of_nat pr_year @ ''.'' @ pad2 m @ ''.'' @ pad2 d
          @ ''.jsonl'')"

text \<open>
  The loop over the days of \<open>save_pr_metadata_to_hf\<close>. A failed download is taken for a
  missing file; a failed upload raises, which ends the function with \<open>False\<close> and leaves
  the later days unwritten.
\<close>

fun save_days :: "env \<Rightarrow> string \<Rightarrow> (ymd \<times> metadata list) list \<Rightarrow> repo \<Rightarrow> bool \<times> repo" where
  "save_days e agent_identifier [] files = (True, files)"
| "save_days e agent_identifier ((key, day_metadata) # rest) files =
     (let filename = shard_path agent_identifier key;
          existing_metadata =
            (if download_fails e filename then []
             else case map_of files filename of None \<Rightarrow> [] | Some ms \<Rightarrow> ms);
          merged_metadata = merge_shard existing_metadata day_metadata
      in if upload_fails e filename then (False, files)
         else save_days e agent_identifier rest (AList.update filename merged_metadata files))"

text \<open>
  \<open>save_pr_metadata_to_hf\<close> returns its result with the dataset and the cache of the debug
  mode (\<open>DEBUG_PR_METADATA_CACHE\<close>, a \<open>defaultdict(list)\<close>) as it leaves them.
\<close>

definition save_pr_metadata_to_hf ::
  "env \<Rightarrow> repo \<Rightarrow> (string \<times> metadata list) list \<Rightarrow> metadata list \<Rightarrow> string
     \<Rightarrow> bool \<times> repo \<times> (string \<times> metadata list) list" where
  "save_pr_metadata_to_hf e files cache metadata_list agent_identifier =
     (if DEBUG_MODE e then
        (let old = (case map_of cache agent_identifier of None \<Rightarrow> [] | Some l \<Rightarrow> l)
         in (True, files, AList.update agent_identifier (merge_shard old metadata_list) cache))
      else if \<not> truthy (hf_token e) then (False, files, cache)
      else (let r = save_days e agent_identifier
                      (group_metadata_by_date (fromisoformat e) metadata_list) files
            in (fst r, snd r, cache)))"

section \<open>get_latest_pr_date_for_agent\<close>

definition latest_step :: "parser \<Rightarrow> datetime option \<Rightarrow> metadata \<Rightarrow> datetime option" where
  "latest_step fromiso latest_date pr =
     (case parse_created_at fromiso pr of
        None \<Rightarrow> latest_date
      | Some dt \<Rightarrow>
          (case latest_date of
             None \<Rightarrow> Some (instant dt)
           | Some l \<Rightarrow> if l < instant dt then Some (instant dt) else latest_date))"

definition latest_in_file :: "env \<Rightarrow> repo \<Rightarrow> datetime option \<Rightarrow> string \<Rightarrow> datetime option" where
  "latest_in_file e files latest_date filename =
     (if download_fails e filename then latest_date
      else case map_of files filename of
             None \<Rightarrow> latest_date
           | Some metadata \<Rightarrow> foldl (latest_step (fromisoformat e)) latest_date metadata)"

definition startswith :: "string \<Rightarrow> string \<Rightarrow> bool" where
  "startswith f p = (take (length p) f = p)"

definition endswith :: "string \<Rightarrow> string \<Rightarrow> bool" where
  "endswith f p = (length p \<le> length f \<and> drop (length f - length p) f = p)"

definition get_latest_pr_date_for_agent :: "env \<Rightarrow> repo \<Rightarrow> string \<Rightarrow> datetime option" where
  "get_latest_pr_date_for_agent e files agent_identifier =
     (if list_fails e then None
      else (let agent_pattern = agent_identifier @ ''/'';
                agent_files = filter (\<lambda>f. startswith f agent_pattern \<and> endswith f ''.jsonl'')
                                (map fst files)
            in if agent_files = [] then None
               else foldl (latest_in_file e files) None agent_files))"

section \<open>What the watermark is computed from\<close>

text \<open>
  The instants that \<open>get_latest_pr_date_for_agent\<close> can read: for each file of the agent
  whose download does not fail, the parsed \<open>created_at\<close> of each record that has one. The
  result of the function is compared with the maximum of this list.
\<close>

definition instants_of_file :: "env \<Rightarrow> repo \<Rightarrow> string \<Rightarrow> datetime list" where
  "instants_of_file e files filename =
     (if download_fails e filename then []
      else case map_of files filename of
             None \<Rightarrow> []
           | Some metadata \<Rightarrow>
               List.map_filter
                 (\<lambda>pr. map_option instant (parse_created_at (fromisoformat e) pr)) metadata)"

definition readable_instants :: "env \<Rightarrow> repo \<Rightarrow> string \<Rightarrow> datetime list" where
  "readable_instants e files agent_identifier =
     concat (map (instants_of_file e files)
       (filter (\<lambda>f. startswith f (agent_identifier @ ''/'') \<and> endswith f ''.jsonl'')
          (map fst files)))"

text \<open>The later of the watermark so far and one more instant.\<close>

definition later :: "datetime option \<Rightarrow> datetime \<Rightarrow> datetime option" where
  "later l x = Some (case l of None \<Rightarrow> x | Some a \<Rightarrow> max a x)"

section \<open>request_with_backoff\<close>


















section \<open>fetch_prs_with_time_partition\<close>

text \<open>
  What \<open>request_with_backoff\<close> hands to the partitioner for one page: nothing (retries
  exhausted), or a response with its status and body. A body that \<open>response.json()\<close>
  rejects, or that is not an object with an integer \<open>total_count\<close> and a list of items,
  makes the source raise inside its \<open>try\<close> block; such a body is \<open>Malformed\<close>. In \<open>Data\<close>
  the defaults of \<open>data.get\<close> (0 and the empty list) stand for absent keys.
\<close>

datatype body = Malformed | Data int "raw_match list"

datatype response = NoResponse | Http nat body

text \<open>
  The provider is a function of the request: the base query, the first and the last day
  of the \<open>created:\<close> clause and the page number. The two days are the day numbers of
  \<open>start_date\<close> and \<open>end_date\<close>, which \<open>strftime('%Y-%m-%d')\<close> renders one to one.
\<close>

type_synonym api = "string \<Rightarrow> int \<Rightarrow> int \<Rightarrow> nat \<Rightarrow> response"

definition date_of :: "datetime \<Rightarrow> int" where
  "date_of t = t div days 1"

text \<open>
  \<open>prs_by_id\<close>, the dictionary shared by the whole mining pass, in insertion order.
\<close>

type_synonym dedup = "(int \<times> raw_match) list"

text \<open>Lines 222 to 226: the loop over the items of a page.\<close>

fun add_items :: "raw_match list \<Rightarrow> dedup \<Rightarrow> nat \<Rightarrow> dedup \<times> nat" where
  "add_items [] prs_by_id total_in_partition = (prs_by_id, total_in_partition)"
| "add_items (pr # items) prs_by_id total_in_partition =
     (case raw_id pr of
        None \<Rightarrow> add_items items prs_by_id total_in_partition
      | Some pr_id \<Rightarrow>
          if pr_id \<noteq> 0 \<and> map_of prs_by_id pr_id = None
          then add_items items (prs_by_id @ [(pr_id, pr)]) (total_in_partition + 1)
          else add_items items prs_by_id total_in_partition)"

text \<open>
  \<open>time_diff / 2\<close>: a \<open>timedelta\<close> divided by an integer is rounded to the nearest
  microsecond, ties to even.
\<close>

definition half :: "int \<Rightarrow> int" where
  "half d = (let q = d div 2 in if d mod 2 = 1 \<and> odd q then q + 1 else q)"

definition mid_date :: "datetime \<Rightarrow> datetime \<Rightarrow> datetime" where
  "mid_date start_date end_date = start_date + half (end_date - start_date)"

text \<open>
  Lines 229 to 233: the range is cut at its midpoint, the function is called on the first
  half and then, with the dictionary the first call left, on the second half, which
  starts one day after the midpoint; the two counts are added. \<open>recurse\<close> is the function
  itself.
\<close>

definition bisect ::
  "(datetime \<Rightarrow> datetime \<Rightarrow> dedup \<Rightarrow> (nat \<times> dedup) option) \<Rightarrow> datetime \<Rightarrow> datetime \<Rightarrow> dedup
     \<Rightarrow> (nat \<times> dedup) option" where
  "bisect recurse start_date end_date prs_by_id =
     (case recurse start_date (mid_date start_date end_date) prs_by_id of
        None \<Rightarrow> None
      | Some (count1, prs1) \<Rightarrow>
          (case recurse (mid_date start_date end_date + days 1) end_date prs1 of
             None \<Rightarrow> None
           | Some (count2, prs2) \<Rightarrow> Some (count1 + count2, prs2)))"

text \<open>
  The \<open>while True\<close> loop over the pages of one range. Every way out of the loop other
  than the bisection returns the count so far with the dictionary as it is.
\<close>

function fetch_pages ::
  "(datetime \<Rightarrow> datetime \<Rightarrow> dedup \<Rightarrow> (nat \<times> dedup) option) \<Rightarrow> (nat \<Rightarrow> response)
     \<Rightarrow> datetime \<Rightarrow> datetime \<Rightarrow> nat option \<Rightarrow> nat \<Rightarrow> nat \<Rightarrow> dedup
     \<Rightarrow> (nat \<times> dedup) option" where
  "fetch_pages recurse request start_date end_date debug_limit page total_in_partition prs_by_id =
     (if (case debug_limit of None \<Rightarrow> False | Some l \<Rightarrow> l \<le> total_in_partition)
      then Some (total_in_partition, prs_by_id)
      else (case request page of
        NoResponse \<Rightarrow> Some (total_in_partition, prs_by_id)
      | Http status_code b \<Rightarrow>
          if status_code \<noteq> 200 then Some (total_in_partition, prs_by_id)
          else (case b of
            Malformed \<Rightarrow> Some (total_in_partition, prs_by_id)
          | Data total_count items \<Rightarrow>
              if items = [] then Some (total_in_partition, prs_by_id)
              else (let added = add_items items prs_by_id total_in_partition in
                if 1000 < total_count \<and> page = 10
                then bisect recurse start_date end_date (fst added)
                else if length items < 100 \<or> 10 \<le> page then Some (snd added, fst added)
                else fetch_pages recurse request start_date end_date debug_limit (page + 1)
                       (snd added) (fst added)))))"
  by pat_completeness auto
termination
  by (relation "measure (\<lambda>(recurse, request, start_date, end_date, debug_limit, page, total, prs).
        10 - page)") auto

declare fetch_pages.simps [simp del]

text \<open>
  The recursion over the ranges has no bound in the source. It runs on fuel here: \<open>None\<close>
  says that the call did not return within the given depth. (CPython would end such a
  run with \<open>RecursionError\<close> at its recursion limit.)
\<close>

fun fetch_prs_with_time_partition ::
  "nat \<Rightarrow> api \<Rightarrow> string \<Rightarrow> datetime \<Rightarrow> datetime \<Rightarrow> dedup \<Rightarrow> nat option
     \<Rightarrow> (nat \<times> dedup) option" where
  "fetch_prs_with_time_partition 0 search base_query start_date end_date prs_by_id debug_limit
     = None"
| "fetch_prs_with_time_partition (Suc fuel) search base_query start_date end_date prs_by_id
     debug_limit =
     fetch_pages
       (\<lambda>s e prs. fetch_prs_with_time_partition fuel search base_query s e prs debug_limit)
       (search base_query (date_of start_date) (date_of end_date))
       start_date end_date debug_limit 1 0 prs_by_id"

section \<open>fetch_all_prs_metadata\<close>





section \<open>A synthetic provider\<close>

text \<open>
  A provider that answers from a fixed list of matches per query, each with the day on
  which it was created, in the order of creation: a page holds up to 100 of the matches
  whose day lies in the requested range, \<open>total_count\<close> is their number, and no page
  beyond the tenth is served.
\<close>

definition in_range :: "(int \<times> raw_match) list \<Rightarrow> int \<Rightarrow> int \<Rightarrow> raw_match list" where
  "in_range matches d1 d2 = map snd (filter (\<lambda>dm. d1 \<le> fst dm \<and> fst dm \<le> d2) matches)"

definition search_api :: "(string \<Rightarrow> (int \<times> raw_match) list) \<Rightarrow> api" where
  "search_api db base_query d1 d2 page =
     (if 10 < page then Http 422 Malformed
      else Http 200 (Data (int (length (in_range (db base_query) d1 d2)))
                      (take 100 (drop ((page - 1) * 100) (in_range (db base_query) d1 d2)))))"

text \<open>
  \<open>serves request xs\<close>: the pages 1 to 10 of one query are cut from the list \<open>xs\<close> of its
  matches, as the synthetic provider does. \<open>ids xs\<close> are the ids under which the items of
  \<open>xs\<close> can enter the dictionary, and \<open>keys\<close> are the ids a dictionary holds.
\<close>

definition serves :: "(nat \<Rightarrow> response) \<Rightarrow> raw_match list \<Rightarrow> bool" where
  "serves request xs = (\<forall>p. 1 \<le> p \<and> p \<le> 10 \<longrightarrow>
     request p = Http 200 (Data (int (length xs)) (take 100 (drop ((p - 1) * 100) xs))))"

definition ids :: "raw_match list \<Rightarrow> int set" where
  "ids xs = {i. i \<noteq> 0 \<and> Some i \<in> raw_id ` set xs}"

definition keys :: "dedup \<Rightarrow> int set" where
  "keys prs_by_id = fst ` set prs_by_id"

text \<open>1500 matches, one on each of 1500 consecutive days, with the ids 1 to 1500.\<close>

definition match :: "nat \<Rightarrow> raw_match" where
  "match k = \<lparr>raw_id = Some (int k + 1), raw_html_url = Some (''u'' @ string_of_nat k),
              raw_created_at = None, raw_closed_at = None, raw_pull_request = Absent\<rparr>"

definition db1500 :: "string \<Rightarrow> (int \<times> raw_match) list" where
  "db1500 base_query = map (\<lambda>k. (int k, match k)) [0..<1500]"

text \<open>1500 matches on one day.\<close>

definition db_one_day :: "string \<Rightarrow> (int \<times> raw_match) list" where
  "db_one_day base_query = map (\<lambda>k. (0, match k)) [0..<1500]"



section \<open>Example data\<close>

text \<open>
  A parser that accepts two timestamps (2024-03-04T09:00:00Z is the epoch second
  1709542800, 2024-03-05T10:00:00Z is 1709632800), a few records, a production
  environment without failures, and one in which the download of one shard fails.
\<close>

definition iso_example :: parser where
  "iso_example s =
     (if s = ''2024-03-04T09:00:00+00:00''
      then Some \<lparr>year = 2024, month = 3, day = 4, instant = seconds 1709542800\<rparr>
      else if s = ''2024-03-05T10:00:00+00:00''
      then Some \<lparr>year = 2024, month = 3, day = 5, instant = seconds 1709632800\<rparr>
      else None)"

definition example_a :: metadata where
  "example_a = \<lparr>html_url = Some ''u1'', created_at = Some ''2024-03-04T09:00:00Z'',
                 merged_at = None, closed_at = None\<rparr>"

definition example_a_merged :: metadata where
  "example_a_merged = \<lparr>html_url = Some ''u1'', created_at = Some ''2024-03-04T09:00:00Z'',
                 merged_at = Some ''2024-03-04T12:00:00Z'', closed_at = None\<rparr>"

definition example_b :: metadata where
  "example_b = \<lparr>html_url = Some ''u2'', created_at = Some ''2024-03-05T10:00:00Z'',
                 merged_at = None, closed_at = None\<rparr>"

definition example_undated :: metadata where
  "example_undated = \<lparr>html_url = Some ''u3'', created_at = None,
                 merged_at = None, closed_at = None\<rparr>"

definition example_no_url :: metadata where
  "example_no_url = \<lparr>html_url = None, created_at = Some ''2024-03-04T09:00:00Z'',
                 merged_at = None, closed_at = None\<rparr>"

definition production_env :: env where
  "production_env = \<lparr>DEBUG_MODE = False, hf_token = Some ''hf'', fromisoformat = iso_example,
       list_fails = False, download_fails = (\<lambda>f. False), upload_fails = (\<lambda>f. False)\<rparr>"

definition flaky_env :: env where
  "flaky_env = \<lparr>DEBUG_MODE = False, hf_token = Some ''hf'', fromisoformat = iso_example,
       list_fails = False, download_fails = (\<lambda>f. f = ''agent/2024.03.04.jsonl''),
       upload_fails = (\<lambda>f. False)\<rparr>"

section \<open>Properties of the metadata extraction\<close>

text \<open>
  C3 as written fails: the source clears \<open>closed_at\<close> under \<open>if merged_at:\<close>, which is
  false for the empty string, so a raw match whose merge timestamp is the empty string
  (not null) keeps its closed timestamp.
\<close>

theorem extract_pr_metadata_nonnull_counterexample:
  "extract_pr_metadata
     \<lparr>raw_id = Some 1, raw_html_url = Some ''u'',
      raw_created_at = Some ''2024-01-03T00:00:00Z'',
      raw_closed_at = Some ''2024-01-04T00:00:00Z'',
      raw_pull_request = Object (Some [])\<rparr>
   = Inr \<lparr>html_url = Some ''u'', created_at = Some ''2024-01-03T00:00:00Z'',
          merged_at = Some [], closed_at = Some ''2024-01-04T00:00:00Z''\<rparr>
   \<and> Some [] \<noteq> (None :: string option)
   \<and> Some ''2024-01-04T00:00:00Z'' \<noteq> (None :: string option)"
  by (simp add: extract_pr_metadata_def truthy_def)

text \<open>
  C3, amended: for every raw match from which a record is extracted, if \<open>merged_at\<close> of
  the record is truthy (neither null nor the empty string) then its \<open>closed_at\<close> is null,
  whatever the closed timestamp of the raw match was.
\<close>

theorem extract_pr_metadata_merged_clears_closed:
  "extract_pr_metadata pr = Inr r \<Longrightarrow> truthy (merged_at r) \<Longrightarrow> closed_at r = None"
  by (auto simp: extract_pr_metadata_def truthy_def split: pull_request_field.splits)

theorem extract_pr_metadata_merged_clears_closed_witness:
  "extract_pr_metadata
     \<lparr>raw_id = Some 1, raw_html_url = Some ''u'',
      raw_created_at = Some ''2024-01-01T00:00:00Z'',
      raw_closed_at = Some ''2024-01-02T00:00:00Z'',
      raw_pull_request = Object (Some ''2024-01-02T00:00:00Z'')\<rparr>
   = Inr \<lparr>html_url = Some ''u'', created_at = Some ''2024-01-01T00:00:00Z'',
          merged_at = Some ''2024-01-02T00:00:00Z'', closed_at = None\<rparr>
   \<and> truthy (Some ''2024-01-02T00:00:00Z'')
   \<and> closed_at \<lparr>html_url = Some ''u'', created_at = Some ''2024-01-01T00:00:00Z'',
          merged_at = Some ''2024-01-02T00:00:00Z'', closed_at = None\<rparr> = None"
proof -
  let ?pr = "\<lparr>raw_id = Some 1, raw_html_url = Some ''u'',
      raw_created_at = Some ''2024-01-01T00:00:00Z'',
      raw_closed_at = Some ''2024-01-02T00:00:00Z'',
      raw_pull_request = Object (Some ''2024-01-02T00:00:00Z'')\<rparr>"
  let ?r = "\<lparr>html_url = Some ''u'', created_at = Some ''2024-01-01T00:00:00Z'',
          merged_at = Some ''2024-01-02T00:00:00Z'', closed_at = None\<rparr>"
  have h1: "extract_pr_metadata ?pr = Inr ?r"
    by (simp add: extract_pr_metadata_def truthy_def)
  have h2: "truthy (merged_at ?r)"
    by (simp add: truthy_def)
  from extract_pr_metadata_merged_clears_closed [OF h1 h2] h1 h2 show ?thesis
    by simp
qed

section \<open>Properties of the statistics\<close>

lemma bit_length_bounds:
  "0 < n \<Longrightarrow> 2 ^ (bit_length n - 1) \<le> n \<and> n < 2 ^ bit_length n"
proof (induction n rule: bit_length.induct)
  case (1 n)
  show ?case
  proof (cases "n div 2 \<le> 0")
    case True
    with 1(2) have "n = 1" by linarith
    then show ?thesis by (simp add: bit_length.simps)
  next
    case False
    then have pos: "0 < n div 2" by simp
    from 1(1) [OF _ pos] 1(2)
    have ih: "2 ^ (bit_length (n div 2) - 1) \<le> n div 2" "n div 2 < 2 ^ bit_length (n div 2)"
      by simp_all
    have bl: "bit_length n = Suc (bit_length (n div 2))"
      using 1(2) by (subst bit_length.simps) simp
    have "0 < bit_length (n div 2)" using pos by (subst bit_length.simps) simp
    then obtain b where b: "bit_length (n div 2) = Suc b" by (cases "bit_length (n div 2)") auto
    from ih show ?thesis unfolding bl b by simp linarith
  qed
qed


lemma round_half_even_near: "\<bar>of_int (round_half_even q) - q\<bar> \<le> 1 / 2"
  unfolding round_half_even_def Let_def
  by (auto simp: abs_if; linarith)

lemma round2_near: "\<bar>round2 q - q\<bar> \<le> 1 / 200"
proof -
  have "\<bar>of_int (round_half_even (q * 100)) - q * 100\<bar> \<le> 1 / 2"
    by (rule round_half_even_near)
  moreover have "round2 q - q = (of_int (round_half_even (q * 100)) - q * 100) / 100"
    by (simp add: round2_def diff_divide_distrib)
  ultimately show ?thesis by (simp only: abs_divide) simp
qed

lemma round_half_even_nonneg: "0 \<le> q \<Longrightarrow> 0 \<le> round_half_even q"
  unfolding round_half_even_def Let_def by auto

lemma round2_nonneg: "0 \<le> q \<Longrightarrow> 0 \<le> round2 q"
  by (simp add: round2_def round_half_even_nonneg)

lemma floor_log2_le:
  assumes "0 < x"
  shows "power_int 2 (floor_log2 x) \<le> x"
proof -
  obtain p q where pq: "quotient_of x = (p, q)" by (cases "quotient_of x")
  then have q: "0 < q" by (rule quotient_of_denom_pos)
  from pq have x: "x = of_int p / of_int q" by (rule quotient_of_div)
  with assms q have p: "0 < p" by (simp add: zero_less_divide_iff)
  let ?e = "int (bit_length p) - int (bit_length q)"
  show ?thesis
  proof (cases "power_int 2 ?e \<le> x")
    case True
    then show ?thesis by (simp add: floor_log2_def pq)
  next
    case False
    then have fl: "floor_log2 x = ?e - 1" by (simp add: floor_log2_def pq)
    have "0 < bit_length p" using p by (subst bit_length.simps) simp
    then obtain k where k: "bit_length p = Suc k" by (cases "bit_length p") auto
    from bit_length_bounds [OF p] have lo: "2 ^ k \<le> p" by (simp add: k)
    from bit_length_bounds [OF q] have hi: "q \<le> 2 ^ bit_length q" by simp
    have e1: "?e - 1 = int k - int (bit_length q)" by (simp add: k)
    have "power_int (2::rat) (int k - int (bit_length q)) = 2 ^ k / 2 ^ bit_length q"
      by (simp add: power_int_diff)
    also have "\<dots> \<le> of_int p / of_int q"
    proof (rule frac_le)
      show "(0::rat) \<le> of_int p" using p by simp
      from lo have "(of_int (2 ^ k) :: rat) \<le> of_int p"
        by (simp only: of_int_le_iff)
      then show "(2::rat) ^ k \<le> of_int p" by simp
      show "(0::rat) < of_int q" using q by simp
      from hi have "(of_int q :: rat) \<le> of_int (2 ^ bit_length q)"
        by (simp only: of_int_le_iff)
      then show "(of_int q :: rat) \<le> 2 ^ bit_length q" by simp
    qed
    finally show ?thesis unfolding fl e1 x [symmetric] .
  qed
qed

lemma float_round_near:
  assumes "0 \<le> x"
  shows "\<bar>float_round x - x\<bar> \<le> x / 2 ^ 53"
proof (cases "x = 0")
  case True
  then show ?thesis by (simp add: float_round_def)
next
  case False
  with assms have pos: "0 < x" by simp
  define u :: rat where "u = power_int 2 (floor_log2 x - 52)"
  have u: "0 < u" by (simp add: u_def zero_less_power_int)
  have hu: "1 / 2 * u = power_int 2 (floor_log2 x) / 2 ^ 53"
    unfolding u_def by (simp add: power_int_diff)
  have fr: "float_round x = of_int (round_half_even (x / u)) * u"
    using pos by (simp add: float_round_def u_def Let_def)
  have "float_round x - x = (of_int (round_half_even (x / u)) - x / u) * u"
    using u by (simp add: fr left_diff_distrib)
  then have "\<bar>float_round x - x\<bar> = \<bar>of_int (round_half_even (x / u)) - x / u\<bar> * u"
    using u by (simp add: abs_mult)
  also have "\<dots> \<le> 1 / 2 * u"
    using round_half_even_near [of "x / u"] u by (intro mult_right_mono) simp_all
  also have "\<dots> = power_int 2 (floor_log2 x) / 2 ^ 53"
    by (rule hu)
  also have "\<dots> \<le> x / 2 ^ 53"
    using floor_log2_le [OF pos] by (simp add: divide_right_mono)
  finally show ?thesis .
qed

lemma float_rate_near:
  fixes m d :: nat
  assumes md: "m \<le> d" and d: "0 < d"
  shows "\<bar>py_round2 (float_round (float_round (of_nat m / of_nat d) * 100))
           - of_nat m / of_nat d * 100\<bar> \<le> 1 / 200 + 1 / 10 ^ 13"
proof -
  define e :: rat where "e = 1 / 2 ^ 53"
  define q :: rat where "q = of_nat m / of_nat d"
  define a where "a = float_round q"
  define b where "b = float_round (a * 100)"
  define r where "r = round2 b"
  define c where "c = float_round r"
  have e: "0 < e" "701 * e \<le> 1 / 10 ^ 13" "e \<le> 1" by (simp_all add: e_def)
  have q: "0 \<le> q" "q \<le> 1" using md d by (simp_all add: q_def)
  have aq0: "\<bar>a - q\<bar> \<le> q * e"
    using float_round_near [OF q(1)] by (simp add: a_def e_def)
  have "q * e \<le> 1 * e" using q e by (intro mult_right_mono) simp_all
  with aq0 have aq: "\<bar>a - q\<bar> \<le> e" by linarith
  have "q * e \<le> q * 1" using q e by (intro mult_left_mono) simp_all
  with aq0 have a0: "0 \<le> a" by linarith
  from aq q e have a2: "a \<le> 2" by linarith
  have a100: "0 \<le> a * 100" using a0 by simp
  have ba0: "\<bar>b - a * 100\<bar> \<le> a * 100 * e"
    using float_round_near [OF a100] by (simp add: b_def e_def)
  have "a * 100 * e \<le> 200 * e"
    using a2 e by (intro mult_right_mono) simp_all
  with ba0 have ba: "\<bar>b - a * 100\<bar> \<le> 200 * e" by linarith
  have "a * 100 * e \<le> a * 100 * 1" using a100 e by (intro mult_left_mono) simp_all
  with ba0 have b0: "0 \<le> b" by linarith
  from ba a2 e have b400: "b \<le> 400" by linarith
  have rb: "\<bar>r - b\<bar> \<le> 1 / 200" unfolding r_def by (rule round2_near)
  have r0: "0 \<le> r" unfolding r_def using b0 by (rule round2_nonneg)
  from rb b400 have r401: "r \<le> 401" by linarith
  have cr0: "\<bar>c - r\<bar> \<le> r * e"
    using float_round_near [OF r0] by (simp add: c_def e_def)
  have "r * e \<le> 401 * e" using r401 e by (intro mult_right_mono) simp_all
  with cr0 have cr: "\<bar>c - r\<bar> \<le> 401 * e" by linarith
  from aq ba rb cr e(2) have "\<bar>c - q * 100\<bar> \<le> 1 / 200 + 1 / 10 ^ 13" by linarith
  then show ?thesis
    unfolding c_def r_def b_def a_def q_def py_round2_def .
qed

lemma py_round2_0: "py_round2 0 = 0"
  by code_simp

lemma float_rate_half: "py_round2 (float_round (float_round (1 / 2) * 100)) = 50"
  by code_simp

lemma float_rate_23_160:
  "py_round2 (float_round (float_round (23 / 160) * 100)) = float_round (1437 / 100)"
  by code_simp

lemma exact_rate_23_160: "round2 (23 / 160 * 100) = 1438 / 100"
  by code_simp

text \<open>
  C4 as written fails: \<open>merged\<close> counts the records whose \<open>merged_at\<close> is truthy, so a
  record whose \<open>merged_at\<close> is the empty string is not null and is not counted.
\<close>

theorem calculate_pr_stats_nonnull_counterexample:
  "merged (calculate_pr_stats_from_metadata
      [\<lparr>html_url = Some ''u'', created_at = Some ''2024-01-01T00:00:00Z'',
        merged_at = Some [], closed_at = None\<rparr>]) = 0
   \<and> length (filter (\<lambda>r. merged_at r \<noteq> None)
      [\<lparr>html_url = Some ''u'', created_at = Some ''2024-01-01T00:00:00Z'',
        merged_at = Some [], closed_at = None\<rparr>]) = 1"
  by (simp add: calculate_pr_stats_from_metadata_def truthy_def)

text \<open>
  C4, amended: for every list of records, \<open>total_prs\<close> is the length of the list,
  \<open>merged\<close> is the number of records with a truthy \<open>merged_at\<close>, and the acceptance rate
  is the float expression \<open>round(merged / (merged + closed_not_merged) * 100, 2)\<close>, where
  \<open>closed_not_merged\<close> counts the records with a truthy \<open>closed_at\<close> and no truthy
  \<open>merged_at\<close>; it differs from the exact percentage by at most 0.005 and the rounding
  error of the floats, which is below 10 to the -13; the rate is 0 when there is no
  decided record. The empty list gives all zeros, a list of open records only gives rate
  0, and the worked example of three records gives total 3, merged 1, rate 50. With 23
  merged and 137 closed records the rate is the float 14.37: the product is the float
  just below 14.375.
\<close>

theorem calculate_pr_stats_from_metadata_correct:
  "total_prs (calculate_pr_stats_from_metadata ms) = length ms \<and>
   merged (calculate_pr_stats_from_metadata ms)
     = length (filter (\<lambda>r. truthy (merged_at r)) ms) \<and>
   (let m = length (filter (\<lambda>r. truthy (merged_at r)) ms);
        c = length (filter (\<lambda>r. truthy (closed_at r) \<and> \<not> truthy (merged_at r)) ms);
        exact = (if m + c = 0 then 0 else of_nat m / of_nat (m + c) * 100)
    in acceptance_rate (calculate_pr_stats_from_metadata ms)
         = (if m + c = 0 then 0
            else py_round2 (float_round (float_round (of_nat m / of_nat (m + c)) * 100))) \<and>
       \<bar>acceptance_rate (calculate_pr_stats_from_metadata ms) - exact\<bar>
         \<le> 1 / 200 + 1 / 10 ^ 13 \<and>
       (m + c = 0 \<longrightarrow> acceptance_rate (calculate_pr_stats_from_metadata ms) = 0)) \<and>
   calculate_pr_stats_from_metadata []
     = \<lparr>total_prs = 0, merged = 0, acceptance_rate = 0\<rparr> \<and>
   ((\<forall>r \<in> set ms. \<not> truthy (merged_at r) \<and> \<not> truthy (closed_at r)) \<longrightarrow>
      acceptance_rate (calculate_pr_stats_from_metadata ms) = 0) \<and>
   calculate_pr_stats_from_metadata
      [\<lparr>html_url = Some ''A'', created_at = Some ''2024-01-01'',
        merged_at = Some ''2024-01-02'', closed_at = None\<rparr>,
       \<lparr>html_url = Some ''B'', created_at = Some ''2024-01-03'',
        merged_at = None, closed_at = Some ''2024-01-04''\<rparr>,
       \<lparr>html_url = Some ''C'', created_at = Some ''2024-01-05'',
        merged_at = None, closed_at = None\<rparr>]
     = \<lparr>total_prs = 3, merged = 1, acceptance_rate = 50\<rparr> \<and>
   acceptance_rate (calculate_pr_stats_from_metadata
      (replicate 23 \<lparr>html_url = Some ''M'', created_at = Some ''2024-01-01'',
        merged_at = Some ''2024-01-02'', closed_at = Some ''2024-01-02''\<rparr>
       @ replicate 137 \<lparr>html_url = Some ''N'', created_at = Some ''2024-01-03'',
        merged_at = None, closed_at = Some ''2024-01-04''\<rparr>))
     = float_round (1437 / 100)"
proof -
  let ?st = "calculate_pr_stats_from_metadata ms"
  let ?m = "length (filter (\<lambda>r. truthy (merged_at r)) ms)"
  let ?c = "length (filter (\<lambda>r. truthy (closed_at r) \<and> \<not> truthy (merged_at r)) ms)"
  let ?exact = "if ?m + ?c = 0 then 0 else (of_nat ?m / of_nat (?m + ?c) * 100 :: rat)"
  let ?float = "if ?m + ?c = 0 then 0
    else py_round2 (float_round (float_round (of_nat ?m / of_nat (?m + ?c)) * 100))"
  have total: "total_prs ?st = length ms"
    by (simp add: calculate_pr_stats_from_metadata_def Let_def)
  have mrg: "merged ?st = ?m"
    by (simp add: calculate_pr_stats_from_metadata_def Let_def)
  have rate: "acceptance_rate ?st = ?float"
    by (simp add: calculate_pr_stats_from_metadata_def Let_def py_round2_0)
  have near: "\<bar>acceptance_rate ?st - ?exact\<bar> \<le> 1 / 200 + 1 / 10 ^ 13"
  proof (cases "?m + ?c = 0")
    case True
    then show ?thesis unfolding rate by simp
  next
    case False
    then have "0 < ?m + ?c" by simp
    from float_rate_near [OF _ this, of ?m] False show ?thesis
      unfolding rate by simp
  qed
  have zero: "?m + ?c = 0 \<longrightarrow> acceptance_rate ?st = 0"
    unfolding rate by simp
  have empty: "calculate_pr_stats_from_metadata []
     = \<lparr>total_prs = 0, merged = 0, acceptance_rate = 0\<rparr>"
    by (simp add: calculate_pr_stats_from_metadata_def py_round2_0)
  have opn: "(\<forall>r \<in> set ms. \<not> truthy (merged_at r) \<and> \<not> truthy (closed_at r)) \<longrightarrow>
      acceptance_rate ?st = 0"
    unfolding rate by auto
  have ex: "calculate_pr_stats_from_metadata
      [\<lparr>html_url = Some ''A'', created_at = Some ''2024-01-01'',
        merged_at = Some ''2024-01-02'', closed_at = None\<rparr>,
       \<lparr>html_url = Some ''B'', created_at = Some ''2024-01-03'',
        merged_at = None, closed_at = Some ''2024-01-04''\<rparr>,
       \<lparr>html_url = Some ''C'', created_at = Some ''2024-01-05'',
        merged_at = None, closed_at = None\<rparr>]
     = \<lparr>total_prs = 3, merged = 1, acceptance_rate = 50\<rparr>"
    by (simp add: calculate_pr_stats_from_metadata_def truthy_def float_rate_half)
  have big: "acceptance_rate (calculate_pr_stats_from_metadata
      (replicate 23 \<lparr>html_url = Some ''M'', created_at = Some ''2024-01-01'',
        merged_at = Some ''2024-01-02'', closed_at = Some ''2024-01-02''\<rparr>
       @ replicate 137 \<lparr>html_url = Some ''N'', created_at = Some ''2024-01-03'',
        merged_at = None, closed_at = Some ''2024-01-04''\<rparr>))
     = float_round (1437 / 100)"
    by (simp add: calculate_pr_stats_from_metadata_def truthy_def float_rate_23_160)
  from total mrg rate near zero empty opn ex big show ?thesis
    unfolding Let_def by blast
qed

theorem calculate_pr_stats_from_metadata_correct_witness:
  "\<not> truthy (merged_at \<lparr>html_url = Some ''C'', created_at = Some ''2024-01-05'',
                  merged_at = None, closed_at = None\<rparr>) \<and>
   \<not> truthy (closed_at \<lparr>html_url = Some ''C'', created_at = Some ''2024-01-05'',
                  merged_at = None, closed_at = None\<rparr>) \<and>
   total_prs (calculate_pr_stats_from_metadata
      [\<lparr>html_url = Some ''C'', created_at = Some ''2024-01-05'',
        merged_at = None, closed_at = None\<rparr>]) = 1 \<and>
   acceptance_rate (calculate_pr_stats_from_metadata
      [\<lparr>html_url = Some ''C'', created_at = Some ''2024-01-05'',
        merged_at = None, closed_at = None\<rparr>]) = 0"
  using calculate_pr_stats_from_metadata_correct
    [of "[\<lparr>html_url = Some ''C'', created_at = Some ''2024-01-05'',
           merged_at = None, closed_at = None\<rparr>]"]
  by (simp add: truthy_def)

section \<open>Properties of the url-keyed merge\<close>

lemma by_url_snoc:
  "by_url (ms @ [m]) =
     (case html_url m of None \<Rightarrow> by_url ms
      | Some u \<Rightarrow> if u = [] then by_url ms else AList.update u m (by_url ms))"
  unfolding by_url_def by simp

lemma distinct_by_url: "distinct (map fst (by_url ms))"
proof (induction ms rule: rev_induct)
  case Nil
  show ?case by (simp add: by_url_def)
next
  case (snoc m ms)
  then show ?case
    by (simp add: by_url_snoc AList.distinct_update split: option.splits)
qed

lemma map_of_by_url:
  "map_of (by_url ms) u = (if u = [] then None else lookup_url ms u)"
proof (induction ms rule: rev_induct)
  case Nil
  show ?case by (simp add: by_url_def lookup_url_def)
next
  case (snoc m ms)
  then show ?case
    by (auto simp: by_url_snoc lookup_url_def AList.update_conv' split: option.splits)
qed

lemma find_Some_mem: "find P xs = Some x \<Longrightarrow> P x \<and> x \<in> set xs"
  by (induction xs) (auto split: if_splits)

lemma by_url_entry:
  "(u, m) \<in> set (by_url ms) \<Longrightarrow> html_url m = Some u \<and> u \<noteq> [] \<and> m \<in> set ms"
proof -
  assume "(u, m) \<in> set (by_url ms)"
  then have "map_of (by_url ms) u = Some m"
    by (simp add: distinct_by_url)
  then have "u \<noteq> []" and "find (\<lambda>m. html_url m = Some u) (rev ms) = Some m"
    by (auto simp: map_of_by_url lookup_url_def split: if_splits)
  then show ?thesis
    by (auto dest: find_Some_mem)
qed

lemma dict_update_snoc:
  "dict_update d (other @ [kv]) = AList.update (fst kv) (snd kv) (dict_update d other)"
  unfolding dict_update_def by simp

lemma distinct_dict_update:
  "distinct (map fst d) \<Longrightarrow> distinct (map fst (dict_update d other))"
proof (induction other rule: rev_induct)
  case Nil
  then show ?case by (simp add: dict_update_def)
next
  case (snoc kv other)
  then show ?case by (simp add: dict_update_snoc AList.distinct_update)
qed

lemma map_of_dict_update:
  "distinct (map fst other) \<Longrightarrow>
   map_of (dict_update d other) k =
     (case map_of other k of Some v \<Rightarrow> Some v | None \<Rightarrow> map_of d k)"
proof (induction other rule: rev_induct)
  case Nil
  show ?case by (simp add: dict_update_def)
next
  case (snoc kv other)
  obtain k' v' where kv: "kv = (k', v')" by (cases kv)
  from snoc.prems have d: "distinct (map fst other)" and nk: "k' \<notin> fst ` set other"
    by (auto simp: kv)
  from nk have none: "map_of other k' = None"
    by (simp add: map_of_eq_None_iff)
  show ?case
  proof (cases "k = k'")
    case True
    then show ?thesis
      by (simp add: dict_update_snoc kv AList.update_conv' none map_add_def)
  next
    case False
    then show ?thesis
      using snoc.IH [OF d]
      by (simp add: dict_update_snoc kv AList.update_conv' map_add_def split: option.splits)
  qed
qed

lemma set_dict_update:
  "distinct (map fst d) \<Longrightarrow> distinct (map fst other) \<Longrightarrow>
   (k, v) \<in> set (dict_update d other) \<Longrightarrow> (k, v) \<in> set d \<or> (k, v) \<in> set other"
proof -
  assume d: "distinct (map fst d)" and o: "distinct (map fst other)"
    and m: "(k, v) \<in> set (dict_update d other)"
  from m distinct_dict_update [OF d, of other]
  have "map_of (dict_update d other) k = Some v" by simp
  then show ?thesis
    using map_of_dict_update [OF o, of d k]
    by (auto split: option.splits dest: map_of_SomeD)
qed

lemma merge_shard_member:
  "m \<in> set (merge_shard ex new) \<Longrightarrow>
     (\<exists>u. html_url m = Some u \<and> u \<noteq> []) \<and> (m \<in> set ex \<or> m \<in> set new)"
proof -
  assume "m \<in> set (merge_shard ex new)"
  then obtain u where "(u, m) \<in> set (dict_update (by_url ex) (by_url new))"
    by (auto simp: merge_shard_def)
  then have "(u, m) \<in> set (by_url ex) \<or> (u, m) \<in> set (by_url new)"
    by (rule set_dict_update [OF distinct_by_url distinct_by_url])
  then show ?thesis
    by (auto dest: by_url_entry)
qed


lemma lookup_url_values:
  "distinct (map fst al) \<Longrightarrow> (\<And>k m. (k, m) \<in> set al \<Longrightarrow> html_url m = Some k) \<Longrightarrow>
   lookup_url (map snd al) u = map_of al u"
proof (induction al rule: rev_induct)
  case Nil
  show ?case by (simp add: lookup_url_def)
next
  case (snoc km al)
  obtain k m where km: "km = (k, m)" by (cases km)
  from snoc.prems(1) have d: "distinct (map fst al)" and nk: "k \<notin> fst ` set al"
    by (auto simp: km)
  have url: "html_url m = Some k"
    using snoc.prems(2) [of k m] by (simp add: km)
  have ih: "lookup_url (map snd al) u = map_of al u"
    using snoc.IH [OF d] snoc.prems(2) by simp
  from nk have none: "map_of al k = None"
    by (simp add: map_of_eq_None_iff)
  show ?case
    using ih none url
    by (auto simp: km lookup_url_def map_add_def split: option.splits)
qed

lemma lookup_url_merge_shard:
  "u \<noteq> [] \<Longrightarrow>
   lookup_url (merge_shard ex new) u =
     (case lookup_url new u of Some m \<Rightarrow> Some m | None \<Rightarrow> lookup_url ex u)"
proof -
  assume u: "u \<noteq> []"
  let ?al = "dict_update (by_url ex) (by_url new)"
  have d: "distinct (map fst ?al)"
    by (rule distinct_dict_update [OF distinct_by_url])
  have e: "\<And>k m. (k, m) \<in> set ?al \<Longrightarrow> html_url m = Some k"
    using set_dict_update [OF distinct_by_url distinct_by_url] by_url_entry by blast
  have "lookup_url (merge_shard ex new) u = map_of ?al u"
    unfolding merge_shard_def by (rule lookup_url_values [OF d e])
  then show ?thesis
    using u by (simp add: map_of_dict_update [OF distinct_by_url] map_of_by_url split: option.splits)
qed

lemma shard_ok_merge_shard: "shard_ok (merge_shard ex new)"
proof -
  let ?al = "dict_update (by_url ex) (by_url new)"
  have d: "distinct (map fst ?al)"
    by (rule distinct_dict_update [OF distinct_by_url])
  have e: "\<And>k m. (k, m) \<in> set ?al \<Longrightarrow> html_url m = Some k"
    using set_dict_update [OF distinct_by_url distinct_by_url] by_url_entry by blast
  have "map html_url (map snd ?al) = map (\<lambda>km. Some (fst km)) ?al"
    using e by (auto simp: map_eq_conv)
  then have eq: "map html_url (merge_shard ex new) = map Some (map fst ?al)"
    by (simp add: merge_shard_def)
  have dS: "distinct (map Some xs) = distinct xs" for xs :: "string list"
    by (simp add: distinct_map)
  have "distinct (map html_url (merge_shard ex new))"
    unfolding eq using d by (simp only: dS)
  moreover have "list_all (\<lambda>m. truthy (html_url m)) (merge_shard ex new)"
    unfolding list_all_iff
  proof
    fix m assume "m \<in> set (merge_shard ex new)"
    then obtain u where "html_url m = Some u" "u \<noteq> []"
      using merge_shard_member by blast
    then show "truthy (html_url m)" by (simp add: truthy_def)
  qed
  ultimately show ?thesis by (simp add: shard_ok_def)
qed

lemma update_fresh: "k \<notin> fst ` set al \<Longrightarrow> AList.update k v al = al @ [(k, v)]"
  by (induction al) auto

lemma length_update:
  "length (AList.update k v al) = (if k \<in> fst ` set al then length al else Suc (length al))"
  by (induction al) auto

lemma by_url_keys: "fst ` set (by_url ms) = {u. u \<noteq> [] \<and> Some u \<in> html_url ` set ms}"
proof (induction ms rule: rev_induct)
  case Nil
  show ?case by (simp add: by_url_def)
next
  case (snoc m ms)
  show ?case
  proof (cases "html_url m")
    case None
    then show ?thesis using snoc by (auto simp: by_url_snoc)
  next
    case (Some u)
    then show ?thesis using snoc by (auto simp: by_url_snoc AList.dom_update)
  qed
qed

lemma length_by_url_shard_ok: "shard_ok ms \<Longrightarrow> length (by_url ms) = length ms"
proof (induction ms rule: rev_induct)
  case Nil
  show ?case by (simp add: by_url_def)
next
  case (snoc m ms)
  from snoc.prems have ok: "shard_ok ms" and t: "truthy (html_url m)"
    and fresh: "html_url m \<notin> html_url ` set ms"
    by (auto simp: shard_ok_def)
  from t obtain u where u: "html_url m = Some u" "u \<noteq> []"
    by (auto simp: truthy_def split: option.splits)
  have "u \<notin> fst ` set (by_url ms)"
    using fresh u by (simp add: by_url_keys)
  then show ?case
    using snoc.IH [OF ok] u by (simp add: by_url_snoc length_update)
qed

lemma length_merge_shard_one:
  assumes ok: "shard_ok ex" and t: "truthy (html_url r)"
  shows "length (merge_shard ex [r]) =
           (if html_url r \<in> html_url ` set ex then length ex else length ex + 1)"
proof -
  from t obtain u where u: "html_url r = Some u" "u \<noteq> []"
    by (auto simp: truthy_def split: option.splits)
  have one: "by_url [r] = [(u, r)]"
    using u by (simp add: by_url_def)
  have iff: "u \<in> fst ` set (by_url ex) \<longleftrightarrow> html_url r \<in> html_url ` set ex"
    using u by (simp add: by_url_keys)
  have "length (merge_shard ex [r]) = length (AList.update u r (by_url ex))"
    by (simp add: merge_shard_def one dict_update_def)
  then show ?thesis
    by (simp add: length_update iff length_by_url_shard_ok [OF ok])
qed

section \<open>Properties of the shard store and of the watermark\<close>

lemma set_update_cases:
  "(k, v) \<in> set (AList.update k' v' al) \<Longrightarrow> (k, v) = (k', v') \<or> (k, v) \<in> set al"
  by (induction al) (auto split: if_splits)

lemma group_snoc:
  "group_metadata_by_date p (ms @ [m]) = group_step p (group_metadata_by_date p ms) m"
  unfolding group_metadata_by_date_def by simp

lemma group_members:
  "(k, l) \<in> set (group_metadata_by_date p ms) \<Longrightarrow> m \<in> set l \<Longrightarrow>
     m \<in> set ms \<and> parse_created_at p m \<noteq> None"
proof (induction ms arbitrary: k l rule: rev_induct)
  case Nil
  then show ?case by (simp add: group_metadata_by_date_def)
next
  case (snoc x ms)
  show ?case
  proof (cases "parse_created_at p x")
    case None
    with snoc.prems have "(k, l) \<in> set (group_metadata_by_date p ms)"
      by (simp add: group_snoc group_step_def)
    from snoc.IH [OF this snoc.prems(2)] show ?thesis by simp
  next
    case (Some dt)
    let ?g = "group_metadata_by_date p ms"
    let ?key = "(year dt, month dt, day dt)"
    let ?old = "case map_of ?g ?key of None \<Rightarrow> [] | Some l \<Rightarrow> l"
    from snoc.prems(1) Some have "(k, l) \<in> set (AList.update ?key (?old @ [x]) ?g)"
      by (simp add: group_snoc group_step_def Let_def)
    then consider "l = ?old @ [x]" | "(k, l) \<in> set ?g"
      by (auto dest: set_update_cases)
    then show ?thesis
    proof cases
      case 1
      with snoc.prems(2) consider "m = x" | "m \<in> set ?old" by auto
      then show ?thesis
      proof cases
        case 1
        then show ?thesis using Some by simp
      next
        case 2
        then have "\<exists>l'. map_of ?g ?key = Some l' \<and> m \<in> set l'"
          by (cases "map_of ?g ?key") auto
        then obtain l' where "map_of ?g ?key = Some l'" "m \<in> set l'"
          by blast
        then have "(?key, l') \<in> set ?g" by (auto dest: map_of_SomeD)
        from snoc.IH [OF this \<open>m \<in> set l'\<close>] show ?thesis by simp
      qed
    next
      case 2
      from snoc.IH [OF this snoc.prems(2)] show ?thesis by simp
    qed
  qed
qed

lemma save_days_invariant:
  assumes "\<And>k l m. (k, l) \<in> set groups \<Longrightarrow> m \<in> set l \<Longrightarrow> Q m"
    and "\<And>f recs m. (f, recs) \<in> set files \<Longrightarrow> m \<in> set recs \<Longrightarrow> Q m"
    and "(f, recs) \<in> set (snd (save_days e agent groups files))" and "m \<in> set recs"
  shows "Q m"
  using assms
proof (induction groups arbitrary: files)
  case Nil
  then show ?case by simp
next
  case (Cons g groups)
  obtain key day_metadata where g: "g = (key, day_metadata)" by (cases g)
  let ?fn = "shard_path agent key"
  let ?ex = "if download_fails e ?fn then []
             else case map_of files ?fn of None \<Rightarrow> [] | Some ms \<Rightarrow> ms"
  let ?files' = "AList.update ?fn (merge_shard ?ex day_metadata) files"
  show ?case
  proof (cases "upload_fails e ?fn")
    case True
    with Cons.prems(3) have "(f, recs) \<in> set files" by (simp add: g)
    from Cons.prems(2) [OF this Cons.prems(4)] show ?thesis .
  next
    case False
    with Cons.prems(3) have in': "(f, recs) \<in> set (snd (save_days e agent groups ?files'))"
      by (simp add: g Let_def)
    have exQ: "Q x" if "x \<in> set ?ex" for x
    proof -
      from that have "\<exists>ms. map_of files ?fn = Some ms \<and> x \<in> set ms"
        by (cases "map_of files ?fn") (auto split: if_splits)
      then obtain ms where "map_of files ?fn = Some ms" "x \<in> set ms"
        by blast
      then have "(?fn, ms) \<in> set files" by (auto dest: map_of_SomeD)
      from Cons.prems(2) [OF this \<open>x \<in> set ms\<close>] show ?thesis .
    qed
    have filesQ: "Q x" if "(f', recs') \<in> set ?files'" "x \<in> set recs'" for f' recs' x
    proof -
      from that(1) consider "recs' = merge_shard ?ex day_metadata" | "(f', recs') \<in> set files"
        by (auto dest: set_update_cases)
      then show ?thesis
      proof cases
        case 1
        with that(2) have "x \<in> set ?ex \<or> x \<in> set day_metadata"
          using merge_shard_member by blast
        then show ?thesis
          using exQ Cons.prems(1) [of key day_metadata x] by (auto simp: g)
      next
        case 2
        from Cons.prems(2) [OF this that(2)] show ?thesis .
      qed
    qed
    show ?thesis
      by (rule Cons.IH [OF _ filesQ in' Cons.prems(4)]) (rule Cons.prems(1), auto)
  qed
qed


lemma latest_step_later:
  "latest_step p l m =
     (case parse_created_at p m of None \<Rightarrow> l | Some dt \<Rightarrow> later l (instant dt))"
  by (auto simp: latest_step_def later_def max_def split: option.splits)

lemma foldl_latest_step:
  "foldl (latest_step p) l ms =
     foldl later l (List.map_filter (\<lambda>pr. map_option instant (parse_created_at p pr)) ms)"
  by (induction ms arbitrary: l)
     (auto simp: latest_step_later List.map_filter_simps split: option.splits)

lemma latest_in_file_later:
  "latest_in_file e files l f = foldl later l (instants_of_file e files f)"
  by (simp add: latest_in_file_def instants_of_file_def foldl_latest_step split: option.splits)

lemma foldl_latest_in_file:
  "foldl (latest_in_file e files) l fs =
     foldl later l (concat (map (instants_of_file e files) fs))"
  by (induction fs arbitrary: l) (simp_all add: latest_in_file_later)

lemma foldl_later_Some:
  "foldl later (Some a) xs = Some (Max (insert a (set xs)))"
proof (induction xs arbitrary: a)
  case Nil
  show ?case by simp
next
  case (Cons x xs)
  have "Max (insert (max a x) (set xs)) = Max (insert a (insert x (set xs)))"
  proof (cases "set xs = {}")
    case True
    then show ?thesis by (simp add: max.commute)
  next
    case False
    then show ?thesis by (simp add: max.assoc)
  qed
  moreover have "later (Some a) x = Some (max a x)"
    by (simp add: later_def)
  ultimately show ?case
    by (simp add: Cons.IH del: Max_insert)
qed

lemma foldl_later_None:
  "foldl later None xs = (if xs = [] then None else Some (Max (set xs)))"
proof (cases xs)
  case Nil
  then show ?thesis by simp
next
  case (Cons x ys)
  have "later None x = Some x" by (simp add: later_def)
  then show ?thesis by (simp add: Cons foldl_later_Some)
qed

lemma get_latest_max:
  "get_latest_pr_date_for_agent e files agent =
     (if list_fails e then None
      else if readable_instants e files agent = [] then None
      else Some (Max (set (readable_instants e files agent))))"
proof (cases "list_fails e")
  case True
  then show ?thesis by (simp add: get_latest_pr_date_for_agent_def)
next
  case False
  let ?fs = "filter (\<lambda>f. startswith f (agent @ ''/'') \<and> endswith f ''.jsonl'') (map fst files)"
  have r: "readable_instants e files agent = concat (map (instants_of_file e files) ?fs)"
    by (simp add: readable_instants_def)
  show ?thesis
  proof (cases "?fs = []")
    case True
    then have "readable_instants e files agent = []" unfolding r by simp
    then show ?thesis
      using False True by (simp add: get_latest_pr_date_for_agent_def Let_def)
  next
    case ne: False
    have "get_latest_pr_date_for_agent e files agent
            = foldl later None (readable_instants e files agent)"
      using False ne unfolding r
      by (simp add: get_latest_pr_date_for_agent_def Let_def foldl_latest_in_file)
    then show ?thesis
      using False by (simp add: foldl_later_None)
  qed
qed


lemmas example_defs = example_a_def example_a_merged_def example_b_def example_undated_def
  example_no_url_def production_env_def flaky_env_def iso_example_def

lemma shard_path_example: "shard_path ''agent'' (2024, 3, 5) = ''agent/2024.03.05.jsonl''"
  by (simp add: shard_path_def pad2_def)

lemma group_example: "group_metadata_by_date iso_example [example_undated, example_b]
    = [((2024, 3, 5), [example_b])]"
  by (simp add: group_metadata_by_date_def group_step_def parse_created_at_def replace_Z_def
        example_defs)

lemma save_example: "save_pr_metadata_to_hf production_env [] [] [example_undated, example_b] ''agent''
    = (True, [(''agent/2024.03.05.jsonl'', [example_b])], [])"
proof -
  have sd: "save_days production_env ''agent'' [((2024, 3, 5), [example_b])] []
              = (True, [(''agent/2024.03.05.jsonl'', [example_b])])"
    by (simp add: shard_path_example production_env_def merge_shard_def by_url_def dict_update_def
          example_b_def)
  have "fromisoformat production_env = iso_example" "\<not> DEBUG_MODE production_env"
    "truthy (hf_token production_env)"
    by (simp_all add: production_env_def truthy_def)
  then show ?thesis
    by (simp add: save_pr_metadata_to_hf_def group_example sd del: save_days.simps)
qed

lemma get_latest_example: "get_latest_pr_date_for_agent flaky_env
     [(''agent/2024.03.04.jsonl'', [example_a]), (''agent/2024.03.05.jsonl'', [example_b])] ''agent''
   = Some (seconds 1709632800)"
  by (simp add: get_latest_pr_date_for_agent_def latest_in_file_def latest_step_def
        parse_created_at_def replace_Z_def startswith_def endswith_def example_defs)


text \<open>
  C6: the merged shard, read by url, holds for every url the record of the new batch if
  the batch has one and the record of the existing shard otherwise, and it satisfies the
  invariant of a shard (truthy urls, no url twice). Upserting one record \<open>r\<close> with a
  truthy url into a shard that satisfies the invariant leaves the number of records
  unchanged when the url of \<open>r\<close> is already in the shard and increases it by one
  otherwise.
\<close>

theorem merge_shard_upsert:
  "shard_ok (merge_shard existing new) \<and>
   (u \<noteq> [] \<longrightarrow>
      lookup_url (merge_shard existing new) u =
        (case lookup_url new u of Some m \<Rightarrow> Some m | None \<Rightarrow> lookup_url existing u)) \<and>
   (shard_ok existing \<and> truthy (html_url r) \<longrightarrow>
      length (merge_shard existing [r]) =
        (if html_url r \<in> html_url ` set existing then length existing
         else length existing + 1))"
  using shard_ok_merge_shard [of existing new] lookup_url_merge_shard [of u existing new]
    length_merge_shard_one [of existing r]
  by blast

theorem merge_shard_upsert_witness:
  "shard_ok [example_a, example_b] \<and> truthy (html_url example_a_merged) \<and>
   html_url example_a_merged = html_url example_a \<and>
   length (merge_shard [example_a, example_b] [example_a_merged]) = 2 \<and>
   shard_ok (merge_shard [example_a, example_b] [example_a_merged]) \<and>
   lookup_url (merge_shard [example_a, example_b] [example_a_merged]) ''u1''
     = Some example_a_merged"
proof -
  have ok: "shard_ok [example_a, example_b]"
    by (simp add: shard_ok_def truthy_def example_defs)
  have t: "truthy (html_url example_a_merged)"
    by (simp add: truthy_def example_defs)
  have same: "html_url example_a_merged = html_url example_a"
    by (simp add: example_defs)
  have l: "lookup_url [example_a_merged] ''u1'' = Some example_a_merged"
    by (simp add: lookup_url_def example_defs)
  from merge_shard_upsert [of "[example_a, example_b]" "[example_a_merged]" "''u1''"
      example_a_merged] ok t same l
  show ?thesis by simp
qed

text \<open>
  C10: every record of a merged shard has a truthy, hence non-null, \<open>html_url\<close>; a record
  (existing or new) whose \<open>html_url\<close> is missing, null or empty is not in the merged
  shard; and every file that the loop over the days leaves in the dataset is either a
  file that was there before, unchanged, or consists of records with a truthy url.
\<close>

theorem persisted_records_have_url:
  "(\<forall>m \<in> set (merge_shard existing new). truthy (html_url m) \<and> html_url m \<noteq> None) \<and>
   (\<not> truthy (html_url r) \<longrightarrow> r \<notin> set (merge_shard existing new)) \<and>
   (\<forall>f recs. (f, recs) \<in> set (snd (save_days e agent groups files)) \<longrightarrow>
        (f, recs) \<in> set files \<or> list_all (\<lambda>m. truthy (html_url m)) recs)"
proof -
  have a: "truthy (html_url m) \<and> html_url m \<noteq> None" if "m \<in> set (merge_shard ex nw)"
    for m ex nw
    using merge_shard_member [OF that] by (auto simp: truthy_def)
  have c: "(f, recs) \<in> set files \<or> list_all (\<lambda>m. truthy (html_url m)) recs"
    if "(f, recs) \<in> set (snd (save_days e agent groups files))" for f recs
    using that
  proof (induction groups arbitrary: files)
    case Nil
    then show ?case by simp
  next
    case (Cons g groups)
    obtain key day_metadata where g: "g = (key, day_metadata)" by (cases g)
    let ?fn = "shard_path agent key"
    let ?ex = "if download_fails e ?fn then []
               else case map_of files ?fn of None \<Rightarrow> [] | Some ms \<Rightarrow> ms"
    let ?files' = "AList.update ?fn (merge_shard ?ex day_metadata) files"
    show ?case
    proof (cases "upload_fails e ?fn")
      case True
      with Cons.prems show ?thesis by (simp add: g)
    next
      case False
      with Cons.prems have "(f, recs) \<in> set (snd (save_days e agent groups ?files'))"
        by (simp add: g Let_def)
      from Cons.IH [OF this]
      consider "(f, recs) \<in> set ?files'" | "list_all (\<lambda>m. truthy (html_url m)) recs"
        by blast
      then show ?thesis
      proof cases
        case 1
        then consider "recs = merge_shard ?ex day_metadata" | "(f, recs) \<in> set files"
          by (auto dest: set_update_cases)
        then show ?thesis
        proof cases
          case 1
          then show ?thesis using a by (simp add: list_all_iff)
        next
          case 2
          then show ?thesis by simp
        qed
      next
        case 2
        then show ?thesis by simp
      qed
    qed
  qed
  from a c show ?thesis by blast
qed

theorem persisted_records_have_url_witness:
  "merge_shard [example_a] [example_no_url, example_b] = [example_a, example_b] \<and>
   \<not> truthy (html_url example_no_url) \<and>
   example_no_url \<notin> set (merge_shard [example_a] [example_no_url, example_b]) \<and>
   truthy (html_url example_a) \<and> truthy (html_url example_b)"
proof -
  have m: "merge_shard [example_a] [example_no_url, example_b] = [example_a, example_b]"
    by (simp add: merge_shard_def by_url_def dict_update_def example_defs)
  have n: "\<not> truthy (html_url example_no_url)"
    by (simp add: truthy_def example_defs)
  from persisted_records_have_url [of "[example_a]" "[example_no_url, example_b]" example_no_url]
    m n
  show ?thesis by simp
qed


text \<open>
  C8 as written fails: in production mode a mined record without \<open>created_at\<close> (and
  with a url) is in no group, so \<open>save_pr_metadata_to_hf\<close> succeeds without writing it
  anywhere; it is lost from the persisted data.
\<close>

theorem undated_record_not_persisted_counterexample:
  "created_at example_undated = None \<and> truthy (html_url example_undated) \<and>
   save_pr_metadata_to_hf production_env [] [] [example_undated] ''agent'' = (True, [], [])"
proof -
  have "group_metadata_by_date iso_example [example_undated] = []"
    by (simp add: group_metadata_by_date_def group_step_def parse_created_at_def
          example_undated_def)
  moreover have "fromisoformat production_env = iso_example" "\<not> DEBUG_MODE production_env"
    "truthy (hf_token production_env)"
    by (simp_all add: production_env_def truthy_def)
  ultimately show ?thesis
    by (simp add: save_pr_metadata_to_hf_def) (simp add: example_undated_def truthy_def)
qed

text \<open>
  C8, amended: a record whose \<open>created_at\<close> is missing or unparsable is excluded from
  the date-keyed grouping and from the watermark computation, and in production mode
  \<open>save_pr_metadata_to_hf\<close> writes it to no shard: if no file of the dataset held it
  before the call, none holds it after.
\<close>

theorem unparsable_created_at_excluded:
  "parse_created_at (fromisoformat e) r = None \<Longrightarrow>
     group_step (fromisoformat e) grouped r = grouped \<and>
     (\<forall>k l. (k, l) \<in> set (group_metadata_by_date (fromisoformat e) ms) \<longrightarrow> r \<notin> set l) \<and>
     latest_step (fromisoformat e) latest r = latest \<and>
     (\<not> DEBUG_MODE e \<and> (\<forall>f recs. (f, recs) \<in> set files \<longrightarrow> r \<notin> set recs) \<longrightarrow>
        (\<forall>f recs. (f, recs) \<in> set (fst (snd (save_pr_metadata_to_hf e files cache ms agent)))
            \<longrightarrow> r \<notin> set recs))"
proof -
  assume none: "parse_created_at (fromisoformat e) r = None"
  have g1: "group_step (fromisoformat e) grouped r = grouped"
    by (simp add: group_step_def none)
  have g2: "r \<notin> set l" if "(k, l) \<in> set (group_metadata_by_date (fromisoformat e) ms)"
    for k l
    using group_members [OF that, of r] none by blast
  have w: "latest_step (fromisoformat e) latest r = latest"
    by (simp add: latest_step_def none)
  have s: "r \<notin> set recs"
    if prod: "\<not> DEBUG_MODE e" and old: "\<And>f recs. (f, recs) \<in> set files \<Longrightarrow> r \<notin> set recs"
      and in': "(f, recs) \<in> set (fst (snd (save_pr_metadata_to_hf e files cache ms agent)))"
    for f recs
  proof (cases "truthy (hf_token e)")
    case False
    with prod in' have "(f, recs) \<in> set files"
      by (simp add: save_pr_metadata_to_hf_def)
    then show ?thesis by (rule old)
  next
    case True
    with prod in' have mem: "(f, recs) \<in> set (snd (save_days e agent
        (group_metadata_by_date (fromisoformat e) ms) files))"
      by (simp add: save_pr_metadata_to_hf_def Let_def)
    show ?thesis
    proof
      assume "r \<in> set recs"
      have "r \<noteq> r"
      proof (rule save_days_invariant [where Q = "\<lambda>m. m \<noteq> r", OF _ _ mem \<open>r \<in> set recs\<close>])
        fix k l m
        assume "(k, l) \<in> set (group_metadata_by_date (fromisoformat e) ms)" "m \<in> set l"
        then show "m \<noteq> r" using g2 by blast
      next
        fix f recs m
        assume "(f, recs) \<in> set files" "m \<in> set recs"
        then show "m \<noteq> r" using old by blast
      qed
      then show False by simp
    qed
  qed
  from g1 g2 w s show ?thesis by blast
qed

theorem unparsable_created_at_excluded_witness:
  "parse_created_at (fromisoformat production_env) example_undated = None \<and>
   \<not> DEBUG_MODE production_env \<and>
   group_metadata_by_date (fromisoformat production_env) [example_undated, example_b]
     = [((2024, 3, 5), [example_b])] \<and>
   save_pr_metadata_to_hf production_env [] [] [example_undated, example_b] ''agent''
     = (True, [(''agent/2024.03.05.jsonl'', [example_b])], []) \<and>
   example_undated \<notin> set [example_b]"
proof -
  have p: "parse_created_at (fromisoformat production_env) example_undated = None"
    by (simp add: parse_created_at_def example_undated_def)
  have d: "\<not> DEBUG_MODE production_env" and f: "fromisoformat production_env = iso_example"
    by (simp_all add: production_env_def)
  from unparsable_created_at_excluded [OF p, of "[]" "[example_undated, example_b]" None
      "[]" "[]" "''agent''"] p d group_example save_example
  show ?thesis by (simp add: f)
qed

text \<open>
  C9 as written fails: when the download of one shard fails while another shard of the
  same identity can be read, the function returns the latest date of the readable shard,
  not the absent watermark.
\<close>

theorem get_latest_download_failure_counterexample:
  "download_fails flaky_env ''agent/2024.03.04.jsonl'' \<and>
   get_latest_pr_date_for_agent flaky_env
     [(''agent/2024.03.04.jsonl'', [example_a]), (''agent/2024.03.05.jsonl'', [example_b])]
     ''agent''
   = Some (seconds 1709632800)"
  using get_latest_example by (simp add: flaky_env_def)

text \<open>
  C9, amended: \<open>get_latest_pr_date_for_agent\<close> always returns a value (every failure is
  caught inside it). A failure while listing the files gives the absent watermark. A
  failed download skips that shard only, and an unparsable \<open>created_at\<close> skips that
  record only: the result is the maximum of the instants that could be read, and the
  absent watermark only if there is none.
\<close>

theorem get_latest_pr_date_for_agent_result:
  "get_latest_pr_date_for_agent e files agent =
     (if list_fails e then None
      else if readable_instants e files agent = [] then None
      else Some (Max (set (readable_instants e files agent))))"
  by (rule get_latest_max)

theorem get_latest_pr_date_for_agent_result_witness:
  "\<not> list_fails flaky_env \<and>
   readable_instants flaky_env
     [(''agent/2024.03.04.jsonl'', [example_a]), (''agent/2024.03.05.jsonl'', [example_b])]
     ''agent'' = [seconds 1709632800] \<and>
   get_latest_pr_date_for_agent flaky_env
     [(''agent/2024.03.04.jsonl'', [example_a]), (''agent/2024.03.05.jsonl'', [example_b])]
     ''agent'' = Some (seconds 1709632800)"
proof -
  have l: "\<not> list_fails flaky_env" by (simp add: flaky_env_def)
  have r: "readable_instants flaky_env
     [(''agent/2024.03.04.jsonl'', [example_a]), (''agent/2024.03.05.jsonl'', [example_b])]
     ''agent'' = [seconds 1709632800]"
    by (simp add: readable_instants_def instants_of_file_def List.map_filter_simps
          parse_created_at_def replace_Z_def startswith_def endswith_def example_defs)
  from get_latest_pr_date_for_agent_result [of flaky_env
      "[(''agent/2024.03.04.jsonl'', [example_a]), (''agent/2024.03.05.jsonl'', [example_b])]"
      "''agent''"] l r
  show ?thesis by simp
qed

section \<open>Properties of the backoff\<close>











section \<open>Properties of the partitioned fetch\<close>

lemma add_items_append:
  "add_items (xs @ ys) m c = add_items ys (fst (add_items xs m c)) (snd (add_items xs m c))"
  by (induction xs arbitrary: m c) (auto split: option.splits)

lemma search_api_serves: "serves (search_api db q d1 d2) (in_range (db q) d1 d2)"
  by (simp add: serves_def search_api_def)

lemma fetch_pages_leaf:
  assumes sv: "serves request xs" and small: "length xs \<le> 1000"
  shows "1 \<le> p \<Longrightarrow> p \<le> 10 \<Longrightarrow>
    fetch_pages recurse request s e None p c m =
      Some (snd (add_items (drop ((p - 1) * 100) xs) m c),
            fst (add_items (drop ((p - 1) * 100) xs) m c))"
proof (induction "10 - p" arbitrary: p c m)
  case 0
  then have p: "p = 10" by simp
  let ?items = "take 100 (drop 900 xs)"
  have req: "request 10 = Http 200 (Data (int (length xs)) ?items)"
    using sv by (simp add: serves_def)
  have all: "drop 900 xs = ?items" using small by simp
  show ?case
    unfolding p
    by (subst fetch_pages.simps) (use small all in \<open>auto simp: req Let_def\<close>)
next
  case (Suc n)
  then have p: "1 \<le> p" "p < 10" by simp_all
  let ?rest = "drop ((p - 1) * 100) xs"
  let ?items = "take 100 ?rest"
  have req: "request p = Http 200 (Data (int (length xs)) ?items)"
    using sv p by (simp add: serves_def)
  show ?case
  proof (cases "length ?items < 100")
    case True
    then have all: "?rest = ?items" by simp
    show ?thesis
      by (subst fetch_pages.simps) (use small p True all in \<open>auto simp: req Let_def\<close>)
  next
    case False
    then have ne: "?items \<noteq> []" by auto
    have n: "n = 10 - Suc p" using Suc.hyps(2) by simp
    have ih: "fetch_pages recurse request s e None (Suc p) c' m' =
      Some (snd (add_items (drop (p * 100) xs) m' c'),
            fst (add_items (drop (p * 100) xs) m' c'))" for c' m'
      using Suc.hyps(1) [OF n, of c' m'] p by simp
    have split: "?rest = ?items @ drop (p * 100) xs"
    proof -
      have k: "p * 100 = 100 + (p - 1) * 100" using p by (simp add: algebra_simps)
      have "drop (p * 100) xs = drop 100 ?rest"
        unfolding k by (simp only: drop_drop)
      then show ?thesis by (simp only: append_take_drop_id)
    qed
    have eq: "add_items ?rest m c =
        add_items (drop (p * 100) xs) (fst (add_items ?items m c)) (snd (add_items ?items m c))"
      by (subst split) (rule add_items_append)
    have unfold: "fetch_pages recurse request s e None p c m =
        fetch_pages recurse request s e None (Suc p)
          (snd (add_items ?items m c)) (fst (add_items ?items m c))"
      by (subst fetch_pages.simps) (use p False ne in \<open>simp add: req Let_def\<close>)
    show ?thesis
      unfolding unfold ih eq ..
  qed
qed


lemma fetch_pages_overflow:
  assumes sv: "serves request xs" and big: "1000 < length xs"
  shows "1 \<le> p \<Longrightarrow> p \<le> 10 \<Longrightarrow>
    fetch_pages recurse request s e None p c m =
      bisect recurse s e
        (fst (add_items (take (1000 - (p - 1) * 100) (drop ((p - 1) * 100) xs)) m c))"
proof (induction "10 - p" arbitrary: p c m)
  case 0
  then have p: "p = 10" by simp
  let ?items = "take 100 (drop 900 xs)"
  have req: "request 10 = Http 200 (Data (int (length xs)) ?items)"
    using sv by (simp add: serves_def)
  have ne: "?items \<noteq> []" using big by simp
  show ?case
    unfolding p
    by (subst fetch_pages.simps) (use big ne in \<open>simp add: req Let_def\<close>)
next
  case (Suc n)
  then have p: "1 \<le> p" "p < 10" by simp_all
  let ?rest = "drop ((p - 1) * 100) xs"
  let ?items = "take 100 ?rest"
  have req: "request p = Http 200 (Data (int (length xs)) ?items)"
    using sv p by (simp add: serves_def)
  have full: "\<not> length ?items < 100" using big p by simp
  then have ne: "?items \<noteq> []" by auto
  have n: "n = 10 - Suc p" using Suc.hyps(2) by simp
  have ih: "fetch_pages recurse request s e None (Suc p) c' m' =
      bisect recurse s e (fst (add_items (take (1000 - p * 100) (drop (p * 100) xs)) m' c'))"
    for c' m'
    using Suc.hyps(1) [OF n, of c' m'] p by simp
  have k: "p * 100 = 100 + (p - 1) * 100" using p by (simp add: algebra_simps)
  have d: "drop (p * 100) xs = drop 100 ?rest"
    unfolding k by (simp only: drop_drop)
  have t: "1000 - (p - 1) * 100 = 100 + (1000 - p * 100)" using p by simp
  have split: "take (1000 - (p - 1) * 100) ?rest = ?items @ take (1000 - p * 100) (drop (p * 100) xs)"
    unfolding t d by (rule take_add)
  have eq: "add_items (take (1000 - (p - 1) * 100) ?rest) m c =
      add_items (take (1000 - p * 100) (drop (p * 100) xs))
        (fst (add_items ?items m c)) (snd (add_items ?items m c))"
    by (subst split) (rule add_items_append)
  have unfold: "fetch_pages recurse request s e None p c m =
      fetch_pages recurse request s e None (Suc p)
        (snd (add_items ?items m c)) (fst (add_items ?items m c))"
    by (subst fetch_pages.simps) (use p full ne in \<open>simp add: req Let_def\<close>)
  show ?case
    unfolding unfold ih eq ..
qed


lemma add_items_keys: "keys (fst (add_items xs m c)) = keys m \<union> ids xs"
proof (induction xs arbitrary: m c)
  case Nil
  show ?case by (simp add: ids_def)
next
  case (Cons x xs)
  have i: "ids (x # xs) = (case raw_id x of None \<Rightarrow> {} | Some i \<Rightarrow> if i = 0 then {} else {i}) \<union> ids xs"
    by (auto simp: ids_def split: option.splits if_splits)
  show ?case
  proof (cases "raw_id x")
    case None
    then show ?thesis by (simp add: Cons.IH i)
  next
    case (Some a)
    show ?thesis
    proof (cases "a \<noteq> 0 \<and> map_of m a = None")
      case True
      have r: "add_items (x # xs) m c = add_items xs (m @ [(a, x)]) (c + 1)"
        using True by (simp add: Some)
      have k: "keys (m @ [(a, x)]) = insert a (keys m)"
        by (simp add: keys_def)
      have "ids (x # xs) = insert a (ids xs)"
        using True by (simp add: i Some)
      then show ?thesis
        unfolding r Cons.IH k by blast
    next
      case False
      then have "a = 0 \<or> a \<in> keys m"
        by (auto simp: keys_def map_of_eq_None_iff)
      with False show ?thesis
        by (auto simp: Some Cons.IH i)
    qed
  qed
qed

lemma add_items_distinct:
  "distinct (map fst m) \<Longrightarrow> distinct (map fst (fst (add_items xs m c)))"
proof (induction xs arbitrary: m c)
  case Nil
  then show ?case by simp
next
  case (Cons x xs)
  show ?case
  proof (cases "raw_id x")
    case None
    then show ?thesis using Cons by simp
  next
    case (Some a)
    show ?thesis
    proof (cases "a \<noteq> 0 \<and> map_of m a = None")
      case True
      then have "a \<notin> fst ` set m" by (simp add: map_of_eq_None_iff)
      with Cons.prems have "distinct (map fst (m @ [(a, x)]))" by simp
      from Cons.IH [OF this] True show ?thesis by (simp add: Some)
    next
      case False
      then show ?thesis using Cons by (auto simp: Some)
    qed
  qed
qed

lemma add_items_count:
  "length m \<le> length (fst (add_items xs m c)) \<and>
   snd (add_items xs m c) = c + (length (fst (add_items xs m c)) - length m)"
proof (induction xs arbitrary: m c)
  case Nil
  show ?case by simp
next
  case (Cons x xs)
  show ?case
  proof (cases "raw_id x")
    case None
    then show ?thesis using Cons.IH [of m c] by simp
  next
    case (Some a)
    show ?thesis
    proof (cases "a \<noteq> 0 \<and> map_of m a = None")
      case True
      let ?r = "add_items xs (m @ [(a, x)]) (c + 1)"
      have r: "add_items (x # xs) m c = ?r" using True by (simp add: Some)
      from Cons.IH [of "m @ [(a, x)]" "c + 1"]
      have "length m + 1 \<le> length (fst ?r)"
        and "snd ?r = c + 1 + (length (fst ?r) - (length m + 1))"
        by simp_all
      then have "length m \<le> length (fst ?r) \<and> snd ?r = c + (length (fst ?r) - length m)"
        by linarith
      then show ?thesis unfolding r .
    next
      case False
      then show ?thesis using Cons.IH [of m c] by (auto simp: Some)
    qed
  qed
qed

lemma half_bounds: "0 \<le> d \<Longrightarrow> 0 \<le> half d \<and> half d \<le> d"
  unfolding half_def Let_def by (auto; presburger)

lemma half_bounds_neg: "d \<le> 0 \<Longrightarrow> d \<le> half d \<and> half d \<le> 0"
  unfolding half_def Let_def by (auto; presburger)

lemma mid_date_between:
  "min s e \<le> mid_date s e \<and> mid_date s e \<le> max s e"
proof (cases "s \<le> e")
  case True
  then show ?thesis using half_bounds [of "e - s"] by (simp add: mid_date_def)
next
  case False
  then show ?thesis using half_bounds_neg [of "e - s"] by (simp add: mid_date_def)
qed

lemma date_of_mono: "a \<le> b \<Longrightarrow> date_of a \<le> date_of b"
  by (simp add: date_of_def days_def zdiv_mono1)

lemma date_of_next: "date_of (t + days 1) = date_of t + 1"
  by (simp add: date_of_def days_def)

lemma mid_date_day:
  "date_of s \<le> date_of e \<Longrightarrow>
     date_of s \<le> date_of (mid_date s e) \<and> date_of (mid_date s e) \<le> date_of e"
proof (cases "s \<le> e")
  case True
  then show ?thesis using mid_date_between [of s e] by (simp add: date_of_mono)
next
  case False
  assume le: "date_of s \<le> date_of e"
  from False have "date_of e \<le> date_of s" by (simp add: date_of_mono)
  with le have eq: "date_of s = date_of e" by simp
  from False mid_date_between [of s e]
  have "date_of e \<le> date_of (mid_date s e)" "date_of (mid_date s e) \<le> date_of s"
    by (simp_all add: date_of_mono)
  with eq show ?thesis by simp
qed

lemma ids_append: "ids (xs @ ys) = ids xs \<union> ids ys"
  by (auto simp: ids_def)

lemma ids_cong_union: "set xs \<union> set ys = set zs \<Longrightarrow> ids xs \<union> ids ys = ids zs"
  unfolding ids_def by (auto simp: image_Un [symmetric] simp del: image_Un)

lemma set_in_range: "set (in_range db a b) = snd ` {x \<in> set db. a \<le> fst x \<and> fst x \<le> b}"
  by (simp add: in_range_def)

lemma ids_in_range_split:
  assumes "a \<le> b" "b \<le> c"
  shows "ids (in_range db a b) \<union> ids (in_range db (b + 1) c) = ids (in_range db a c)"
proof (rule ids_cong_union)
  have "{x \<in> set db. a \<le> fst x \<and> fst x \<le> b} \<union> {x \<in> set db. b + 1 \<le> fst x \<and> fst x \<le> c}
      = {x \<in> set db. a \<le> fst x \<and> fst x \<le> c}"
    using assms by auto
  then show "set (in_range db a b) \<union> set (in_range db (b + 1) c) = set (in_range db a c)"
    unfolding set_in_range image_Un [symmetric] by simp
qed

lemma ids_take: "ids (take n xs) \<subseteq> ids xs"
  by (auto simp: ids_def dest: in_set_takeD)


lemma bisect_Some:
  "bisect recurse s e m0 = Some (c, m') \<Longrightarrow>
     \<exists>c1 m1 c2. recurse s (mid_date s e) m0 = Some (c1, m1) \<and>
       recurse (mid_date s e + days 1) e m1 = Some (c2, m') \<and> c = c1 + c2"
  by (auto simp: bisect_def split: option.splits)

lemma fetch_unfold_leaf:
  assumes "length (in_range (db q) (date_of s) (date_of e)) \<le> 1000"
  shows "fetch_prs_with_time_partition (Suc n) (search_api db) q s e m None =
    Some (snd (add_items (in_range (db q) (date_of s) (date_of e)) m 0),
          fst (add_items (in_range (db q) (date_of s) (date_of e)) m 0))"
  using fetch_pages_leaf [OF search_api_serves [of db q "date_of s" "date_of e"] assms, of 1]
  by simp

lemma fetch_unfold_overflow:
  assumes "1000 < length (in_range (db q) (date_of s) (date_of e))"
  shows "fetch_prs_with_time_partition (Suc n) (search_api db) q s e m None =
    bisect (\<lambda>s e prs. fetch_prs_with_time_partition n (search_api db) q s e prs None) s e
      (fst (add_items (take 1000 (in_range (db q) (date_of s) (date_of e))) m 0))"
  using fetch_pages_overflow [OF search_api_serves [of db q "date_of s" "date_of e"] assms, of 1]
  by simp

lemma in_range_nonempty: "in_range db a b \<noteq> [] \<Longrightarrow> a \<le> b"
  by (auto simp: in_range_def filter_empty_conv)

lemma fetch_complete:
  "fetch_prs_with_time_partition n (search_api db) q s e m None = Some (c, m') \<Longrightarrow>
     keys m' = keys m \<union> ids (in_range (db q) (date_of s) (date_of e)) \<and>
     (distinct (map fst m) \<longrightarrow> distinct (map fst m'))"
proof (induction n arbitrary: s e m c m')
  case 0
  then show ?case by simp
next
  case (Suc n)
  let ?xs = "in_range (db q) (date_of s) (date_of e)"
  show ?case
  proof (cases "length ?xs \<le> 1000")
    case True
    from Suc.prems have "m' = fst (add_items ?xs m 0)"
      unfolding fetch_unfold_leaf [of db q s e, OF True] by simp
    then show ?thesis
      by (simp add: add_items_keys add_items_distinct)
  next
    case False
    then have big: "1000 < length ?xs" by simp
    let ?m0 = "fst (add_items (take 1000 ?xs) m 0)"
    let ?mid = "mid_date s e"
    from Suc.prems obtain c1 m1 c2 where
      r1: "fetch_prs_with_time_partition n (search_api db) q s ?mid ?m0 None = Some (c1, m1)"
      and r2: "fetch_prs_with_time_partition n (search_api db) q (?mid + days 1) e m1 None
                 = Some (c2, m')"
      unfolding fetch_unfold_overflow [of db q s e, OF big] by (blast dest: bisect_Some)
    from big have "?xs \<noteq> []" by auto
    then have le: "date_of s \<le> date_of e" by (rule in_range_nonempty)
    from mid_date_day [OF le]
    have cover: "ids (in_range (db q) (date_of s) (date_of ?mid))
        \<union> ids (in_range (db q) (date_of (?mid + days 1)) (date_of e)) = ids ?xs"
      unfolding date_of_next by (intro ids_in_range_split) simp_all
    have k0: "keys ?m0 = keys m \<union> ids (take 1000 ?xs)"
      by (rule add_items_keys)
    have d0: "distinct (map fst m) \<longrightarrow> distinct (map fst ?m0)"
      by (simp add: add_items_distinct)
    from Suc.IH [OF r1] Suc.IH [OF r2] k0 d0 cover ids_take [of 1000 ?xs]
    show ?thesis by auto
  qed
qed

lemma bisect_SomeI:
  "recurse s (mid_date s e) m0 = Some (c1, m1) \<Longrightarrow>
   recurse (mid_date s e + days 1) e m1 = Some (c2, m') \<Longrightarrow>
   bisect recurse s e m0 = Some (c1 + c2, m')"
  by (simp add: bisect_def)

lemma fetch_fuel_Suc:
  "fetch_prs_with_time_partition n (search_api db) q s e m None = Some r \<Longrightarrow>
   fetch_prs_with_time_partition (Suc n) (search_api db) q s e m None = Some r"
proof (induction n arbitrary: s e m r)
  case 0
  then show ?case by simp
next
  case (Suc n)
  let ?xs = "in_range (db q) (date_of s) (date_of e)"
  show ?case
  proof (cases "length ?xs \<le> 1000")
    case True
    from Suc.prems show ?thesis
      unfolding fetch_unfold_leaf [of db q s e, OF True] .
  next
    case False
    then have big: "1000 < length ?xs" by simp
    let ?m0 = "fst (add_items (take 1000 ?xs) m 0)"
    obtain c m' where r: "r = (c, m')" by (cases r)
    from Suc.prems obtain c1 m1 c2 where
      r1: "fetch_prs_with_time_partition n (search_api db) q s (mid_date s e) ?m0 None
             = Some (c1, m1)"
      and r2: "fetch_prs_with_time_partition n (search_api db) q (mid_date s e + days 1) e m1 None
                 = Some (c2, m')"
      and c: "c = c1 + c2"
      unfolding fetch_unfold_overflow [of db q s e, OF big] r by (blast dest: bisect_Some)
    have "bisect (\<lambda>s e prs. fetch_prs_with_time_partition (Suc n) (search_api db) q s e prs None)
            s e ?m0 = Some (c1 + c2, m')"
      by (rule bisect_SomeI) (use Suc.IH [OF r1] Suc.IH [OF r2] in simp_all)
    then show ?thesis
      unfolding fetch_unfold_overflow [of db q s e, OF big] r c .
  qed
qed

lemma fetch_fuel_le:
  "n \<le> k \<Longrightarrow> fetch_prs_with_time_partition n (search_api db) q s e m None = Some r \<Longrightarrow>
     fetch_prs_with_time_partition k (search_api db) q s e m None = Some r"
proof (induction k)
  case 0
  then show ?case by simp
next
  case (Suc k)
  show ?case
  proof (cases "n = Suc k")
    case True
    with Suc.prems(2) show ?thesis by (simp only:)
  next
    case False
    with Suc.prems(1) have "n \<le> k" by simp
    from Suc.IH [OF this Suc.prems(2)] show ?thesis by (rule fetch_fuel_Suc)
  qed
qed

lemma half_less: "0 < d \<Longrightarrow> half d < d"
  unfolding half_def Let_def by (auto; presburger)

lemma fetch_returns:
  assumes day: "\<forall>d. length (in_range (db q) d d) \<le> 1000"
  shows "\<exists>n. \<forall>m. \<exists>r. fetch_prs_with_time_partition n (search_api db) q s e m None = Some r"
proof (induction "nat (e - s)" arbitrary: s e rule: less_induct)
  case less
  let ?xs = "in_range (db q) (date_of s) (date_of e)"
  show ?case
  proof (cases "length ?xs \<le> 1000")
    case True
    show ?thesis
      using fetch_unfold_leaf [of db q s e 0, OF True] by blast
  next
    case False
    then have big: "1000 < length ?xs" by simp
    then have "?xs \<noteq> []" by auto
    then have le: "date_of s \<le> date_of e" by (rule in_range_nonempty)
    have "date_of s \<noteq> date_of e"
    proof
      assume eq: "date_of s = date_of e"
      from day have "length (in_range (db q) (date_of e) (date_of e)) \<le> 1000" by blast
      with big eq show False by simp
    qed
    with le have "date_of s < date_of e" by simp
    then have lt: "s < e" using date_of_mono [of e s] by (cases "s < e") auto
    let ?mid = "mid_date s e"
    have h: "0 \<le> half (e - s)" "half (e - s) < e - s"
      using lt half_bounds [of "e - s"] half_less [of "e - s"] by simp_all
    have lt1: "nat (?mid - s) < nat (e - s)"
      using h lt by (simp add: mid_date_def)
    have lt2: "nat (e - (?mid + days 1)) < nat (e - s)"
      using h lt by (simp add: mid_date_def days_def)
    from less [OF lt1] obtain n1 where
      n1: "\<And>m. \<exists>r. fetch_prs_with_time_partition n1 (search_api db) q s ?mid m None = Some r"
      by blast
    from less [OF lt2] obtain n2 where
      n2: "\<And>m. \<exists>r. fetch_prs_with_time_partition n2 (search_api db) q (?mid + days 1) e m None
                      = Some r"
      by blast
    let ?n = "max n1 n2"
    have "\<exists>r. fetch_prs_with_time_partition (Suc ?n) (search_api db) q s e m None = Some r" for m
    proof -
      let ?m0 = "fst (add_items (take 1000 ?xs) m 0)"
      from n1 [of ?m0] obtain c1 m1 where
        "fetch_prs_with_time_partition n1 (search_api db) q s ?mid ?m0 None = Some (c1, m1)"
        by auto
      then have r1: "fetch_prs_with_time_partition ?n (search_api db) q s ?mid ?m0 None
                       = Some (c1, m1)"
        by (rule fetch_fuel_le [rotated]) simp
      from n2 [of m1] obtain c2 m2 where
        "fetch_prs_with_time_partition n2 (search_api db) q (?mid + days 1) e m1 None
           = Some (c2, m2)"
        by auto
      then have r2: "fetch_prs_with_time_partition ?n (search_api db) q (?mid + days 1) e m1 None
                       = Some (c2, m2)"
        by (rule fetch_fuel_le [rotated]) simp
      have "bisect (\<lambda>s e prs. fetch_prs_with_time_partition ?n (search_api db) q s e prs None)
              s e ?m0 = Some (c1 + c2, m2)"
        by (rule bisect_SomeI) (use r1 r2 in simp_all)
      then show ?thesis
        unfolding fetch_unfold_overflow [of db q s e, OF big] by blast
    qed
    then show ?thesis by blast
  qed
qed

lemma filter_upt_range:
  "filter (\<lambda>k. a \<le> int k \<and> int k \<le> b) [0..<n] = [nat a..<min n (nat (b + 1))]"
proof (rule sorted_distinct_set_unique)
  show "sorted (filter (\<lambda>k. a \<le> int k \<and> int k \<le> b) [0..<n])"
    by (rule sorted_wrt_filter) simp
  show "set (filter (\<lambda>k. a \<le> int k \<and> int k \<le> b) [0..<n]) = set [nat a..<min n (nat (b + 1))]"
    by auto
qed simp_all

lemma in_range_upt:
  "in_range (map (\<lambda>k. (int k, match k)) [0..<n]) a b = map match [nat a..<min n (nat (b + 1))]"
proof -
  have "filter (\<lambda>dm. a \<le> fst dm \<and> fst dm \<le> b) (map (\<lambda>k. (int k, match k)) [0..<n])
          = map (\<lambda>k. (int k, match k)) (filter (\<lambda>k. a \<le> int k \<and> int k \<le> b) [0..<n])"
    by (simp add: filter_map o_def)
  then show ?thesis
    unfolding in_range_def filter_upt_range by (simp add: o_def)
qed

lemma in_range_db1500:
  "in_range (db1500 q) a b = map match [nat a..<min 1500 (nat (b + 1))]"
  unfolding db1500_def by (rule in_range_upt)

lemma add_items_stale: "ids xs \<subseteq> keys m \<Longrightarrow> add_items xs m c = (m, c)"
proof (induction xs)
  case Nil
  show ?case by simp
next
  case (Cons x xs)
  have sub: "ids xs \<subseteq> ids (x # xs)" by (auto simp: ids_def)
  with Cons have ih: "add_items xs m c = (m, c)" by blast
  show ?case
  proof (cases "raw_id x")
    case None
    then show ?thesis by (simp add: ih)
  next
    case (Some a)
    have "a \<noteq> 0 \<Longrightarrow> a \<in> keys m"
      using Cons.prems Some by (force simp: ids_def)
    then have "a \<noteq> 0 \<Longrightarrow> map_of m a \<noteq> None"
      by (simp add: keys_def map_of_eq_None_iff)
    then show ?thesis by (auto simp: Some ih)
  qed
qed

lemma add_items_fresh:
  "distinct ks \<Longrightarrow> \<forall>k \<in> set ks. int k + 1 \<notin> keys m \<Longrightarrow>
     add_items (map match ks) m c = (m @ map (\<lambda>k. (int k + 1, match k)) ks, c + length ks)"
proof (induction ks arbitrary: m c)
  case Nil
  show ?case by simp
next
  case (Cons k ks)
  have id: "raw_id (match k) = Some (int k + 1)" by (simp add: match_def)
  have new: "map_of m (int k + 1) = None"
    using Cons.prems(2) by (simp add: keys_def map_of_eq_None_iff)
  have "\<forall>j \<in> set ks. int j + 1 \<notin> keys (m @ [(int k + 1, match k)])"
    using Cons.prems by (auto simp: keys_def)
  with Cons.prems(1) Cons.IH [of "m @ [(int k + 1, match k)]" "c + 1"]
  show ?case by (simp add: id new)
qed

lemma keys_entries: "keys (map (\<lambda>k. (int k + 1, match k)) ks) = (\<lambda>k. int k + 1) ` set ks"
proof -
  have "keys (map (\<lambda>k. (int k + 1, match k)) ks) = set (map fst (map (\<lambda>k. (int k + 1, match k)) ks))"
    by (simp only: keys_def set_map)
  also have "map fst (map (\<lambda>k. (int k + 1, match k)) ks) = map (\<lambda>k. int k + 1) ks"
    by (induction ks) simp_all
  finally show ?thesis by (simp only: set_map)
qed

lemma raw_id_match: "raw_id (match k) = Some (int k + 1)"
  by (simp add: match_def)

lemma ids_matches: "ids (map match ks) = (\<lambda>k. int k + 1) ` set ks"
proof (induction ks)
  case Nil
  show ?case by (simp add: ids_def)
next
  case (Cons k ks)
  have "ids (map match (k # ks)) = ids ([match k] @ map match ks)" by simp
  also have "\<dots> = ids [match k] \<union> ids (map match ks)" by (rule ids_append)
  also have "ids [match k] = {int k + 1}"
    unfolding ids_def by (rule set_eqI) (simp add: raw_id_match, linarith)
  finally show ?case unfolding Cons.IH by simp
qed




lemma date_of_days: "date_of (days n) = n"
  by (simp add: date_of_def days_def)

lemma upt_split: "i \<le> j \<Longrightarrow> j \<le> k \<Longrightarrow> [i..<k] = [i..<j] @ [j..<k]"
  using upt_add_eq_append [of i j "k - j"] by simp

lemma add_items_seen:
  assumes "k \<le> j"
  shows "add_items (map match [i..<k]) (map (\<lambda>k. (int k + 1, match k)) [0..<j]) c
     = (map (\<lambda>k. (int k + 1, match k)) [0..<j], c)"
proof (rule add_items_stale)
  have "set [i..<k] \<subseteq> set [0..<j]" using assms by auto
  then show "ids (map match [i..<k]) \<subseteq> keys (map (\<lambda>k. (int k + 1, match k)) [0..<j])"
    unfolding ids_matches keys_entries by (rule image_mono)
qed

lemma add_items_range:
  assumes ij: "i \<le> j" and jk: "j \<le> k"
  shows "add_items (map match [i..<k]) (map (\<lambda>k. (int k + 1, match k)) [0..<j]) c
     = (map (\<lambda>k. (int k + 1, match k)) [0..<k], c + (k - j))"
proof -
  let ?entry = "\<lambda>k. (int k + 1, match k)"
  have s1: "map match [i..<k] = map match [i..<j] @ map match [j..<k]"
    unfolding upt_split [OF ij jk] by simp
  have s2: "map ?entry [0..<k] = map ?entry [0..<j] @ map ?entry [j..<k]"
    unfolding upt_split [OF le0 jk] by simp
  have "\<forall>x \<in> set [j..<k]. int x + 1 \<notin> keys (map ?entry [0..<j])"
    unfolding keys_entries by auto
  from add_items_fresh [OF _ this, of c]
  have fresh: "add_items (map match [j..<k]) (map ?entry [0..<j]) c
      = (map ?entry [0..<j] @ map ?entry [j..<k], c + (k - j))"
    by simp
  show ?thesis
    unfolding s1 add_items_append add_items_seen [OF order_refl] s2 using fresh by simp
qed

lemma take_map_match: "k \<le> j \<Longrightarrow> take k (map match [0..<j]) = map match [0..<k]"
  by (simp add: take_map take_upt)

lemma fetch_db1500:
  "fetch_prs_with_time_partition 2 (search_api db1500) q (days 0) (days 1499) [] None
     = Some (500, map (\<lambda>k. (int k + 1, match k)) [0..<1500])"
proof -
  let ?entry = "\<lambda>k. (int k + 1, match k)"
  let ?m0 = "map ?entry [0..<1000]"
  have all: "in_range (db1500 q) (date_of (days 0)) (date_of (days 1499)) = map match [0..<1500]"
    unfolding date_of_days in_range_db1500 by (simp del: upt_rec_numeral)
  have mid: "date_of (mid_date (days 0) (days 1499)) = 749"
    by (simp add: mid_date_def half_def days_def date_of_def Let_def)
  have mid1: "date_of (mid_date (days 0) (days 1499) + days 1) = 750"
    unfolding date_of_next mid by simp
  have lo: "in_range (db1500 q) (date_of (days 0)) (date_of (mid_date (days 0) (days 1499)))
      = map match [0..<750]"
    unfolding date_of_days mid in_range_db1500 by (simp del: upt_rec_numeral)
  have hi: "in_range (db1500 q) (date_of (mid_date (days 0) (days 1499) + days 1))
      (date_of (days 1499)) = map match [750..<1500]"
    unfolding date_of_days mid1 in_range_db1500 by (simp del: upt_rec_numeral)
  have t: "take 1000 (map match [0..<1500]) = map match [0..<1000]"
    by (rule take_map_match) simp
  have e0: "map ?entry [0..<0] = []" by simp
  have first: "add_items (map match [0..<1000]) [] 0 = (?m0, 1000)"
    using add_items_range [of 0 0 1000 0] unfolding e0 by (simp del: upt_rec_numeral)
  have stale1: "add_items (map match [0..<750]) ?m0 0 = (?m0, 0)"
    by (rule add_items_seen) simp
  have second: "add_items (map match [750..<1500]) ?m0 0 = (map ?entry [0..<1500], 500)"
    using add_items_range [of 750 1000 1500 0] by (simp del: upt_rec_numeral)
  have big: "1000 < length (in_range (db1500 q) (date_of (days 0)) (date_of (days 1499)))"
    unfolding all by simp
  have small1: "length (in_range (db1500 q) (date_of (days 0))
      (date_of (mid_date (days 0) (days 1499)))) \<le> 1000"
    unfolding lo by simp
  have small2: "length (in_range (db1500 q) (date_of (mid_date (days 0) (days 1499) + days 1))
      (date_of (days 1499))) \<le> 1000"
    unfolding hi by simp
  have two: "(2::nat) = Suc (Suc 0)" by simp
  show ?thesis
    unfolding two fetch_unfold_overflow [of db1500 q "days 0" "days 1499", OF big] bisect_def
      fetch_unfold_leaf [of db1500 q "days 0" "mid_date (days 0) (days 1499)", OF small1]
      fetch_unfold_leaf [of db1500 q "mid_date (days 0) (days 1499) + days 1" "days 1499",
        OF small2]
      all lo hi t
    by (simp add: first stale1 second del: upt_rec_numeral)
qed











lemma entries_keys: "keys (map (\<lambda>k. (int k + 1, match k)) [0..<n]) = {1..int n}"
proof -
  have "(\<lambda>k. int k + 1) ` {0..<n} = {1..int n}"
  proof (rule set_eqI)
    fix x :: int
    show "x \<in> (\<lambda>k. int k + 1) ` {0..<n} \<longleftrightarrow> x \<in> {1..int n}"
    proof
      assume "x \<in> (\<lambda>k. int k + 1) ` {0..<n}"
      then show "x \<in> {1..int n}" by auto
    next
      assume x: "x \<in> {1..int n}"
      then have "nat (x - 1) \<in> {0..<n}" "x = int (nat (x - 1)) + 1" by auto
      then show "x \<in> (\<lambda>k. int k + 1) ` {0..<n}" by (rule rev_image_eqI)
    qed
  qed
  then show ?thesis unfolding keys_entries by simp
qed

lemma entries_distinct: "distinct (map fst (map (\<lambda>k. (int k + 1, match k)) [0..<n]))"
proof -
  have "map fst (map (\<lambda>k. (int k + 1, match k)) [0..<n]) = map (\<lambda>k. int k + 1) [0..<n]"
    by (simp add: o_def)
  moreover have "distinct (map (\<lambda>k. int k + 1) [0..<n])"
    by (simp add: distinct_map inj_on_def)
  ultimately show ?thesis by (simp only:)
qed

lemma length_in_range_db1500_day: "length (in_range (db1500 q) d d) \<le> 1000"
  unfolding in_range_db1500 by simp

lemma fetch_pages_page10:
  assumes "request 10 = Http 200 (Data total_count items)" "items \<noteq> []" "1000 < total_count"
    and "\<forall>l. debug_limit = Some l \<longrightarrow> c < l"
  shows "fetch_pages recurse request s e debug_limit 10 c m
     = bisect recurse s e (fst (add_items items m c))"
  using assms by (subst fetch_pages.simps) (auto simp: Let_def split: option.splits)

lemma split_days:
  assumes "date_of s \<le> date_of e"
  shows "{date_of s..date_of (mid_date s e)} \<union> {date_of (mid_date s e + days 1)..date_of e}
           = {date_of s..date_of e}"
    and "{date_of s..date_of (mid_date s e)} \<inter> {date_of (mid_date s e + days 1)..date_of e} = {}"
  using mid_date_day [OF assms] unfolding date_of_next by auto

lemma fetch_total:
  assumes day: "\<forall>d. length (in_range (db q) d d) \<le> 1000"
  shows "\<exists>n c1 m1. (\<forall>k \<ge> n. fetch_prs_with_time_partition k (search_api db) q s e m None
                         = Some (c1, m1)) \<and>
           keys m1 = keys m \<union> ids (in_range (db q) (date_of s) (date_of e)) \<and>
           (distinct (map fst m) \<longrightarrow> distinct (map fst m1))"
proof -
  from fetch_returns [of db q s e] day obtain n where
    "\<forall>m. \<exists>r. fetch_prs_with_time_partition n (search_api db) q s e m None = Some r"
    by blast
  then obtain c1 m1 where
    r: "fetch_prs_with_time_partition n (search_api db) q s e m None = Some (c1, m1)"
    by (metis surj_pair)
  have "\<forall>k \<ge> n. fetch_prs_with_time_partition k (search_api db) q s e m None = Some (c1, m1)"
    using fetch_fuel_le [OF _ r] by blast
  with fetch_complete [OF r] show ?thesis by blast
qed


section \<open>Properties of the fetch window\<close>




end
